theory Spec2Isabelle
  imports Main "HOL-Library.Word"
begin

section \<open>The circular byte queue of queue.c\<close>

text \<open>
  The queue of \<^verbatim>\<open>queue.h\<close> is a struct of a storage pointer, two indices, the
  length of the storage and a cached element count, all \<^verbatim>\<open>uint32_t\<close>. The
  functions of \<^verbatim>\<open>queue.c\<close> return \<^verbatim>\<open>int\<close> or \<^verbatim>\<open>bool\<close> and change
  the struct through a pointer. The embedding keeps the machine widths: the unsigned
  fields are 32-bit words, and an \<^verbatim>\<open>int\<close> result is a 32-bit word that is read
  in two's complement with \<open>sint\<close> (the conversion of a \<^verbatim>\<open>uint32_t\<close> count to
  \<^verbatim>\<open>int\<close> keeps the bit pattern, as on every Linux compiler).
\<close>

type_synonym u8 = "8 word"
type_synonym u32 = "32 word"
type_synonym c_int = "32 word"

text \<open>
  \<^verbatim>\<open>queue_t\<close>. The field \<open>data\<close> is the storage pointer together with the block
  it points to: \<open>None\<close> is the null pointer, \<open>Some blk\<close> a block whose bytes are
  \<open>blk\<close>. The mutex and the condition variable carry no data; waiting on the
  condition is modelled below by the list of wake-ups the caller is given.
\<close>

record queue_t =
  data :: "u8 list option"
  head :: u32
  tail :: u32
  total_size :: u32
  current_size :: u32

text \<open>What the C leaves undefined, made a value.\<close>

datatype fault = DivByZero | OutOfBounds | NullPointer

text \<open>
  \<^verbatim>\<open>malloc(n)\<close>: the allocator either fails or hands out \<open>n\<close> bytes of
  unspecified content. The first argument is that choice: \<open>None\<close> for failure,
  \<open>Some fill\<close> for success with \<open>fill i\<close> the byte found at offset \<open>i\<close>.
\<close>

definition malloc :: "(nat \<Rightarrow> u8) option \<Rightarrow> nat \<Rightarrow> u8 list option" where
  "malloc heap n = (case heap of None \<Rightarrow> None | Some fill \<Rightarrow> Some (map fill [0..<n]))"

definition sizeof_uint8_t :: nat where
  "sizeof_uint8_t = 1"

text \<open>
  \<^verbatim>\<open>queue_init\<close>. The sum \<^verbatim>\<open>queue_size * sizeof(uint8_t) + 1\<close> is exact in
  \<^verbatim>\<open>size_t\<close> and is then stored in the \<^verbatim>\<open>uint32_t len\<close>, which keeps its low
  32 bits. The result is the returned flag and the struct behind the pointer.
\<close>

definition queue_init ::
  "(nat \<Rightarrow> u8) option \<Rightarrow> queue_t option \<Rightarrow> u32 \<Rightarrow> bool \<times> queue_t option" where
  "queue_init heap queue_name queue_size =
     (case queue_name of
        None \<Rightarrow> (False, None)
      | Some q \<Rightarrow>
          if queue_size = 0 then (False, Some q)
          else
            let len = (word_of_nat (unat queue_size * sizeof_uint8_t + 1) :: u32) in
            (case malloc heap (unat len) of
               None \<Rightarrow> (False, Some (q\<lparr>data := None\<rparr>))
             | Some blk \<Rightarrow>
                 (True, Some \<lparr>data = Some blk, head = 0, tail = 0,
                              total_size = len, current_size = 0\<rparr>)))"

text \<open>\<^verbatim>\<open>queue_clear\<close>\<close>

definition queue_clear :: "queue_t option \<Rightarrow> bool \<times> queue_t option" where
  "queue_clear queue_name =
     (case queue_name of
        None \<Rightarrow> (False, None)
      | Some q \<Rightarrow> (True, Some (q\<lparr>head := 0, tail := 0, current_size := 0\<rparr>)))"

text \<open>\<^verbatim>\<open>queue_get_current_size\<close> and \<^verbatim>\<open>queue_is_empty\<close> take the struct by value.\<close>

definition queue_get_current_size :: "queue_t \<Rightarrow> u32" where
  "queue_get_current_size queue_name = current_size queue_name"

definition queue_is_empty :: "queue_t \<Rightarrow> bool" where
  "queue_is_empty queue_name = (if current_size queue_name = 0 then True else False)"

text \<open>
  The \<^verbatim>\<open>for\<close> loop of \<^verbatim>\<open>queue_put_data\<close>, from the state at its head:
  \<open>put_num\<close> bytes of \<open>src\<close> are already stored. The remainder by a
  \<open>total_size\<close> of zero, a store through a null \<open>data\<close> pointer and an access
  past the end of a block are faults.
\<close>

function put_loop :: "queue_t \<Rightarrow> u8 list \<Rightarrow> u32 \<Rightarrow> u32 \<Rightarrow> fault + (u32 \<times> queue_t)" where
  "put_loop q src data_len put_num =
     (if put_num < data_len then
        if total_size q = 0 then Inl DivByZero
        else if (tail q + 1) mod total_size q = head q then Inr (put_num, q)
        else
          (case data q of
             None \<Rightarrow> Inl NullPointer
           | Some blk \<Rightarrow>
               if length src \<le> unat put_num \<or> length blk \<le> unat (tail q) then Inl OutOfBounds
               else
                 put_loop
                   (q\<lparr>data := Some (blk[unat (tail q) := src ! unat put_num]),
                      tail := (tail q + 1) mod total_size q,
                      current_size := current_size q + 1\<rparr>)
                   src data_len (put_num + 1))
      else Inr (put_num, q))"
  by pat_completeness auto
termination
proof (relation "measure (\<lambda>(q, src, data_len, put_num). unat data_len - unat put_num)")
  show "wf (measure (\<lambda>(q, src, data_len, put_num). unat data_len - unat put_num))"
    by simp
next
  fix q :: queue_t and src :: "u8 list" and data_len put_num :: u32 and x2 :: "u8 list"
  assume lt: "put_num < data_len"
  then have "put_num + 1 \<noteq> 0"
    by (metis add.commute add.right_inverse add_left_cancel word_order.extremum_strict)
  then have "unat (put_num + 1) = Suc (unat put_num)"
    by (metis add.commute unatSuc)
  moreover from lt have "unat put_num < unat data_len"
    by (simp add: word_less_nat_alt)
  ultimately show "((q\<lparr>data := Some (x2[unat (tail q) := src ! unat put_num]),
                       tail := (tail q + 1) mod total_size q,
                       current_size := current_size q + 1\<rparr>,
                     src, data_len, put_num + 1),
                    (q, src, data_len, put_num))
                   \<in> measure (\<lambda>(q, src, data_len, put_num). unat data_len - unat put_num)"
    by simp
qed

text \<open>
  \<^verbatim>\<open>queue_put_data\<close>. The result is the returned \<^verbatim>\<open>int\<close> and the struct; the
  caller's bytes are only read. The loop runs with the mutex held, so the call is one
  step on the struct. The signal it sends before it returns changes nothing in the
  struct; a consumer that waits sees it as a wake-up (below).
\<close>

definition queue_put_data ::
  "queue_t option \<Rightarrow> u8 list option \<Rightarrow> u32 \<Rightarrow> fault + (c_int \<times> queue_t option)" where
  "queue_put_data queue_name src data_len =
     (case queue_name of
        None \<Rightarrow> Inr (- 1, queue_name)
      | Some q \<Rightarrow>
          (case src of
             None \<Rightarrow> Inr (- 1, queue_name)
           | Some bytes \<Rightarrow>
               if data_len = 0 then Inr (- 1, queue_name)
               else
                 (case put_loop q bytes data_len 0 of
                    Inl f \<Rightarrow> Inl f
                  | Inr (put_num, q') \<Rightarrow> Inr (put_num, Some q'))))"

text \<open>
  The \<^verbatim>\<open>for\<close> loop that ends \<^verbatim>\<open>queue_get_data\<close> and
  \<^verbatim>\<open>queue_get_data_with_timeout\<close> (the two copies are the same text), from the
  state at its head: \<open>get_num\<close> bytes are already in the caller's buffer \<open>dst\<close>.
\<close>

function get_loop ::
  "queue_t \<Rightarrow> u8 list \<Rightarrow> u32 \<Rightarrow> u32 \<Rightarrow> fault + (u32 \<times> u8 list \<times> queue_t)" where
  "get_loop q dst data_len get_num =
     (if get_num < data_len then
        if head q = tail q then Inr (get_num, dst, q)
        else
          (case data q of
             None \<Rightarrow> Inl NullPointer
           | Some blk \<Rightarrow>
               if length dst \<le> unat get_num \<or> length blk \<le> unat (head q) then Inl OutOfBounds
               else if total_size q = 0 then Inl DivByZero
               else
                 get_loop
                   (q\<lparr>head := (head q + 1) mod total_size q,
                      current_size := current_size q - 1\<rparr>)
                   (dst[unat get_num := blk ! unat (head q)])
                   data_len (get_num + 1))
      else Inr (get_num, dst, q))"
  by pat_completeness auto
termination
proof (relation "measure (\<lambda>(q, dst, data_len, get_num). unat data_len - unat get_num)")
  show "wf (measure (\<lambda>(q, dst, data_len, get_num). unat data_len - unat get_num))"
    by simp
next
  fix q :: queue_t and dst :: "u8 list" and data_len get_num :: u32 and x2 :: "u8 list"
  assume lt: "get_num < data_len"
  then have "get_num + 1 \<noteq> 0"
    by (metis add.commute add.right_inverse add_left_cancel word_order.extremum_strict)
  then have "unat (get_num + 1) = Suc (unat get_num)"
    by (metis add.commute unatSuc)
  moreover from lt have "unat get_num < unat data_len"
    by (simp add: word_less_nat_alt)
  ultimately show "((q\<lparr>head := (head q + 1) mod total_size q,
                       current_size := current_size q - 1\<rparr>,
                     dst[unat get_num := x2 ! unat (head q)], data_len, get_num + 1),
                    (q, dst, data_len, get_num))
                   \<in> measure (\<lambda>(q, dst, data_len, get_num). unat data_len - unat get_num)"
    by simp
qed

text \<open>
  The drain step: the lock is taken, the loop runs from \<open>get_num = 0\<close> and the count
  is returned as \<^verbatim>\<open>int\<close>. The result is the returned value, the caller's buffer and
  the struct. The drain runs on the struct as the wait before it left it: no other
  thread is given a turn between the last test of the count and the lock.
\<close>

definition drain ::
  "queue_t \<Rightarrow> u8 list \<Rightarrow> u32 \<Rightarrow> fault + (c_int \<times> u8 list option \<times> queue_t option)" where
  "drain q dst data_len =
     (case get_loop q dst data_len 0 of
        Inl f \<Rightarrow> Inl f
      | Inr (get_num, dst', q') \<Rightarrow> Inr (get_num, Some dst', Some q'))"

text \<open>
  Waiting. A call of \<^verbatim>\<open>pthread_cond_wait\<close> or \<^verbatim>\<open>pthread_cond_timedwait\<close>
  releases the mutex, so other threads work on the queue until the caller wakes. One
  wake-up is the value the wait returns and what the other threads did to the struct
  meanwhile. A caller is given the list of its wake-ups; when the list is used up and
  the caller would wait again, it has not returned and the result is \<open>None\<close>.
  The deadline that \<^verbatim>\<open>queue_get_data_with_timeout\<close> computes from the clock is
  handed to every \<^verbatim>\<open>pthread_cond_timedwait\<close> unchanged and only decides which
  value the wait returns, which the wake-up already says.
\<close>

datatype wake = Wake c_int "queue_t \<Rightarrow> queue_t"

text \<open>The values of \<^verbatim>\<open>errno.h\<close> on Linux.\<close>

definition EINTR :: c_int where
  "EINTR = 4"

definition ETIMEDOUT :: c_int where
  "ETIMEDOUT = 110"

text \<open>
  The \<^verbatim>\<open>while\<close> loop of \<^verbatim>\<open>queue_get_data\<close>: it waits as long as the count
  reads zero and ignores what the wait returns.
\<close>

fun wait_loop :: "wake list \<Rightarrow> queue_t \<Rightarrow> queue_t option" where
  "wait_loop [] q = (if 0 = queue_get_current_size q then None else Some q)"
| "wait_loop (Wake ret others # wakes) q =
     (if 0 = queue_get_current_size q then wait_loop wakes (others q) else Some q)"

text \<open>\<^verbatim>\<open>queue_get_data\<close>\<close>

definition queue_get_data ::
  "wake list \<Rightarrow> queue_t option \<Rightarrow> u8 list option \<Rightarrow> u32
     \<Rightarrow> (fault + (c_int \<times> u8 list option \<times> queue_t option)) option" where
  "queue_get_data wakes queue_name dst data_len =
     (case queue_name of
        None \<Rightarrow> Some (Inr (- 1, dst, queue_name))
      | Some q \<Rightarrow>
          (case dst of
             None \<Rightarrow> Some (Inr (- 1, dst, queue_name))
           | Some buf \<Rightarrow>
               if data_len = 0 then Some (Inr (- 1, dst, queue_name))
               else
                 (case wait_loop wakes q of
                    None \<Rightarrow> None
                  | Some q' \<Rightarrow> Some (drain q' buf data_len))))"

text \<open>
  The \<^verbatim>\<open>while\<close> loop of \<^verbatim>\<open>queue_get_data_with_timeout\<close>. It ends in one of
  two ways: the count reads non-zero and the function goes on to the drain, or a wait
  returned something other than \<^verbatim>\<open>EINTR\<close> and the function returns \<open>-1\<close>.
\<close>

datatype wait_end = Proceed queue_t | GiveUp queue_t

fun timedwait_loop :: "wake list \<Rightarrow> queue_t \<Rightarrow> wait_end option" where
  "timedwait_loop [] q = (if 0 = queue_get_current_size q then None else Some (Proceed q))"
| "timedwait_loop (Wake ret others # wakes) q =
     (if 0 = queue_get_current_size q then
        if EINTR = ret then timedwait_loop wakes (others q)
        else Some (GiveUp (others q))
      else Some (Proceed q))"

text \<open>\<^verbatim>\<open>queue_get_data_with_timeout\<close>\<close>

definition queue_get_data_with_timeout ::
  "wake list \<Rightarrow> queue_t option \<Rightarrow> u8 list option \<Rightarrow> u32 \<Rightarrow> u32
     \<Rightarrow> (fault + (c_int \<times> u8 list option \<times> queue_t option)) option" where
  "queue_get_data_with_timeout wakes queue_name dst data_len timeout =
     (case queue_name of
        None \<Rightarrow> Some (Inr (- 1, dst, queue_name))
      | Some q \<Rightarrow>
          (case dst of
             None \<Rightarrow> Some (Inr (- 1, dst, queue_name))
           | Some buf \<Rightarrow>
               if data_len = 0 then Some (Inr (- 1, dst, queue_name))
               else if timeout > 0 then
                 (case timedwait_loop wakes q of
                    None \<Rightarrow> None
                  | Some (GiveUp q') \<Rightarrow> Some (Inr (- 1, dst, Some q'))
                  | Some (Proceed q') \<Rightarrow> Some (drain q' buf data_len))
               else Some (drain q buf data_len)))"

subsection \<open>The state of a queue in use\<close>

text \<open>
  The indices are below \<open>total_size\<close> and the cached count is the distance from
  \<open>head\<close> to \<open>tail\<close> around the ring.
\<close>

definition queue_inv :: "queue_t \<Rightarrow> bool" where
  "queue_inv q =
     (head q < total_size q \<and> tail q < total_size q \<and>
      unat (current_size q) =
        (unat (tail q) + unat (total_size q) - unat (head q)) mod unat (total_size q))"

text \<open>The storage pointer is not null and its block has \<open>total_size\<close> bytes.\<close>

definition storage_ok :: "queue_t \<Rightarrow> bool" where
  "storage_ok q =
     (case data q of None \<Rightarrow> False | Some blk \<Rightarrow> length blk = unat (total_size q))"

text \<open>The capacity asked of \<^verbatim>\<open>queue_init\<close>: one slot of the storage stays free.\<close>

definition capacity :: "queue_t \<Rightarrow> nat" where
  "capacity q = unat (total_size q) - 1"

text \<open>The bytes held, oldest first: \<open>current_size\<close> slots of the ring from \<open>head\<close> on.\<close>

definition contents :: "queue_t \<Rightarrow> u8 list" where
  "contents q =
     (case data q of
        None \<Rightarrow> []
      | Some blk \<Rightarrow>
          map (\<lambda>i. blk ! ((unat (head q) + i) mod unat (total_size q)))
            [0..<unat (current_size q)])"

subsection \<open>Callers\<close>

text \<open>A struct that \<^verbatim>\<open>queue_init\<close> has not seen yet, here all zero.\<close>

definition zeroed :: queue_t where
  "zeroed = \<lparr>data = None, head = 0, tail = 0, total_size = 0, current_size = 0\<rparr>"

text \<open>
  What a producer thread does to the struct while a consumer waits: one call of
  \<^verbatim>\<open>queue_put_data\<close> with the bytes \<open>bytes\<close>.
\<close>

definition other_put :: "u8 list \<Rightarrow> queue_t \<Rightarrow> queue_t" where
  "other_put bytes q =
     (case queue_put_data (Some q) (Some bytes) (word_of_nat (length bytes)) of
        Inr (ret, Some q') \<Rightarrow> q'
      | _ \<Rightarrow> q)"

text \<open>
  A run of calls of \<^verbatim>\<open>queue_put_data\<close>, one for each list of bytes, none of them
  invalid, faulting or short: the struct after the last call, \<open>None\<close> if a call
  did not store all its bytes.
\<close>

fun put_all :: "queue_t \<Rightarrow> u8 list list \<Rightarrow> queue_t option" where
  "put_all q [] = Some q"
| "put_all q (bytes # rest) =
     (if bytes = [] \<or> 2 ^ 32 \<le> length bytes then None
      else
        (case queue_put_data (Some q) (Some bytes) (word_of_nat (length bytes)) of
           Inr (ret, Some q') \<Rightarrow>
             if ret = word_of_nat (length bytes) then put_all q' rest else None
         | _ \<Rightarrow> None))"

text \<open>
  A run of calls of \<^verbatim>\<open>queue_get_data\<close> by the only thread at work on the queue
  (no wake-up comes), one for each length asked, each into a fresh buffer of that
  length: the bytes received, in the order received, and the struct after the last
  call; \<open>None\<close> if a call is invalid, faults or does not return.
\<close>

fun get_all :: "queue_t \<Rightarrow> u32 list \<Rightarrow> (u8 list \<times> queue_t) option" where
  "get_all q [] = Some ([], q)"
| "get_all q (n # ns) =
     (if n = 0 then None
      else
        (case queue_get_data [] (Some q) (Some (replicate (unat n) 0)) n of
           Some (Inr (ret, Some buf, Some q')) \<Rightarrow>
             (case get_all q' ns of
                None \<Rightarrow> None
              | Some (bytes, q'') \<Rightarrow> Some (take (unat ret) buf @ bytes, q''))
         | _ \<Rightarrow> None))"

text \<open>
  What the caller of a function that returns \<^verbatim>\<open>int\<close> gets: the returned word read
  in two's complement, and nothing when the call faults.
\<close>

definition returned :: "fault + (c_int \<times> 'a) \<Rightarrow> int option" where
  "returned res = (case res of Inl f \<Rightarrow> None | Inr (ret, rest) \<Rightarrow> Some (sint ret))"

text \<open>
  A queue of capacity 4 in the middle of its life: it holds the bytes 4 and 5 in the
  slots 3 and 4, and the next byte goes to slot 0.
\<close>

definition ring5 :: queue_t where
  "ring5 = \<lparr>data = Some [1, 2, 3, 4, 5], head = 3, tail = 0, total_size = 5, current_size = 2\<rparr>"

subsection \<open>Arithmetic of the ring\<close>

lemma sint_unat:
  fixes r :: u32
  shows "sint r = (if unat r < 2 ^ 31 then int (unat r) else int (unat r) - 2 ^ 32)"
proof -
  have s: "sint r = (uint r + 2 ^ 31) mod 2 ^ 32 - 2 ^ 31"
    by (simp add: sint_uint signed_take_bit_eq_take_bit_shift take_bit_eq_mod)
  have b: "0 \<le> uint r" "uint r < 2 ^ 32"
    using uint_bounded [of r] by simp_all
  have u: "int (unat r) = uint r"
    by simp
  show ?thesis
  proof (cases "unat r < 2 ^ 31")
    case True
    then have "int (unat r) < int (2 ^ 31)"
      by (simp only: of_nat_less_iff)
    then have "uint r < 2 ^ 31"
      by simp
    then have "(uint r + 2 ^ 31) mod 2 ^ 32 = uint r + 2 ^ 31"
      using b by (intro mod_pos_pos_trivial) simp_all
    then show ?thesis
      using True s u by simp
  next
    case False
    then have "int (2 ^ 31) \<le> int (unat r)"
      by (simp only: of_nat_le_iff not_less)
    then have ge: "2 ^ 31 \<le> uint r"
      by simp
    have "(uint r + 2 ^ 31) mod 2 ^ 32 = (uint r + 2 ^ 31 - 2 ^ 32) mod 2 ^ 32"
      by (metis minus_mod_self2)
    also have "\<dots> = uint r + 2 ^ 31 - 2 ^ 32"
      using b ge by (intro mod_pos_pos_trivial) simp_all
    finally show ?thesis
      using False s u by simp
  qed
qed


lemma ring_dist: "h < N \<Longrightarrow> t < N \<Longrightarrow> (t + N - h) mod N = (if h \<le> t then t - h else t + N - (h::nat))"
  by (auto simp: mod_if le_mod_geq)

lemma ring_succ: "t < N \<Longrightarrow> (t + 1) mod N = (if t + 1 = N then 0 else t + (1::nat))"
  by (auto simp: mod_if)

lemma ring_full_iff:
  fixes h t N :: nat
  assumes "h < N" "t < N"
  shows "((t + 1) mod N = h) = ((t + N - h) mod N = N - 1)"
  unfolding ring_dist [OF assms] ring_succ [OF assms(2)] using assms by auto

lemma ring_empty_iff:
  fixes h t N :: nat
  assumes "h < N" "t < N"
  shows "(h = t) = ((t + N - h) mod N = 0)"
  unfolding ring_dist [OF assms] using assms by auto

lemma ring_lt:
  fixes h t N :: nat
  assumes "h < N" "t < N"
  shows "(t + N - h) mod N < N"
  using assms by simp

lemma ring_put:
  fixes h t N :: nat
  assumes "h < N" "t < N" "(t + 1) mod N \<noteq> h"
  shows "((t + 1) mod N + N - h) mod N = (t + N - h) mod N + 1"
proof -
  define s where "s = (t + 1) mod N"
  have sv: "s = (if t + 1 = N then 0 else t + 1)"
    unfolding s_def by (rule ring_succ) fact
  have sl: "s < N" and sh: "s \<noteq> h"
    using assms by (simp_all add: s_def)
  have "(s + N - h) mod N = (t + N - h) mod N + 1"
    unfolding ring_dist [OF assms(1) sl] ring_dist [OF assms(1,2)]
    using assms(1,2) sv sh by (auto split: if_splits)
  then show ?thesis
    unfolding s_def .
qed

lemma ring_get:
  fixes h t N :: nat
  assumes "h < N" "t < N" "h \<noteq> t"
  shows "(t + N - (h + 1) mod N) mod N = (t + N - h) mod N - 1"
proof -
  define s where "s = (h + 1) mod N"
  have sv: "s = (if h + 1 = N then 0 else h + 1)"
    unfolding s_def by (rule ring_succ) fact
  have sl: "s < N"
    using assms by (simp add: s_def)
  have "(t + N - s) mod N = (t + N - h) mod N - 1"
    unfolding ring_dist [OF sl assms(2)] ring_dist [OF assms(1,2)]
    using assms sv by (auto split: if_splits)
  then show ?thesis
    unfolding s_def .
qed

lemma ring_idx_inj:
  fixes h i k N :: nat
  assumes "i < k" "k < N"
  shows "(h + i) mod N \<noteq> (h + k) mod N"
proof
  assume "(h + i) mod N = (h + k) mod N"
  then have "(h + k) mod N = (h + i) mod N" by simp
  moreover have "h + i \<le> h + k" using assms by simp
  ultimately have "N dvd (h + k) - (h + i)"
    by (simp add: mod_eq_dvd_iff_nat)
  then have "N dvd k - i" by simp
  moreover have "0 < k - i" "k - i < N" using assms by simp_all
  ultimately show False by (simp add: nat_dvd_not_less)
qed

lemma ring_reach_tail:
  fixes h t N :: nat
  assumes "h < N" "t < N"
  shows "(h + (t + N - h) mod N) mod N = t"
  unfolding ring_dist [OF assms] using assms by (auto simp: mod_if)

lemma word_succ_lt:
  fixes a b :: u32
  assumes "a < b"
  shows "unat (a + 1) = unat a + 1"
proof -
  from assms have "a + 1 \<noteq> 0"
    by (metis add.commute add.right_inverse add_left_cancel word_order.extremum_strict)
  then show ?thesis
    by (metis Suc_eq_plus1 add.commute unatSuc)
qed

lemma word_succ_mod:
  fixes t n :: u32
  assumes "t < n"
  shows "unat ((t + 1) mod n) = (unat t + 1) mod unat n"
  using word_succ_lt [OF assms] by (simp add: unat_mod_distrib)

lemma word_pred: "(c::u32) \<noteq> 0 \<Longrightarrow> unat (c - 1) = unat c - 1"
  by (metis unat_minus_one)

lemma inv_nat:
  assumes "queue_inv q"
  shows "unat (head q) < unat (total_size q)" "unat (tail q) < unat (total_size q)"
    "unat (current_size q) < unat (total_size q)"
  using assms by (simp_all add: queue_inv_def word_less_nat_alt)

lemma full_iff:
  assumes "queue_inv q"
  shows "((tail q + 1) mod total_size q = head q) = (unat (current_size q) = capacity q)"
proof -
  note n = inv_nat [OF assms]
  have t: "tail q < total_size q" using assms by (simp add: queue_inv_def)
  have "((tail q + 1) mod total_size q = head q) = ((unat (tail q) + 1) mod unat (total_size q) = unat (head q))"
    using word_succ_mod [OF t] by (simp add: word_unat_eq_iff)
  also have "\<dots> = (unat (current_size q) = capacity q)"
    using ring_full_iff [OF n(1,2)] assms by (simp add: capacity_def queue_inv_def)
  finally show ?thesis .
qed

lemma empty_iff:
  assumes "queue_inv q"
  shows "(head q = tail q) = (current_size q = 0)"
proof -
  note n = inv_nat [OF assms]
  have "(head q = tail q) = (unat (head q) = unat (tail q))"
    by (simp add: word_unat_eq_iff)
  also have "\<dots> = (unat (current_size q) = 0)"
    using ring_empty_iff [OF n(1,2)] assms by (simp add: queue_inv_def)
  also have "\<dots> = (current_size q = 0)"
    by (simp add: unat_eq_0)
  finally show ?thesis .
qed

subsection \<open>One turn of each loop\<close>

lemma put_step:
  fixes q :: queue_t and blk :: "u8 list" and b :: u8
  assumes inv: "queue_inv q" and blk: "data q = Some blk" "length blk = unat (total_size q)"
    and nf: "(tail q + 1) mod total_size q \<noteq> head q"
  defines "q' \<equiv> q\<lparr>data := Some (blk[unat (tail q) := b]),
                   tail := (tail q + 1) mod total_size q,
                   current_size := current_size q + 1\<rparr>"
  shows "queue_inv q'" and "storage_ok q'"
    and "unat (current_size q') = unat (current_size q) + 1"
    and "contents q' = contents q @ [b]"
proof -
  note n = inv_nat [OF inv]
  have t: "tail q < total_size q" and h: "head q < total_size q"
    using inv by (simp_all add: queue_inv_def)
  have k: "unat (current_size q) = (unat (tail q) + unat (total_size q) - unat (head q)) mod unat (total_size q)"
    using inv by (simp add: queue_inv_def)
  have t': "unat ((tail q + 1) mod total_size q) = (unat (tail q) + 1) mod unat (total_size q)"
    by (rule word_succ_mod [OF t])
  have nf': "(unat (tail q) + 1) mod unat (total_size q) \<noteq> unat (head q)"
    using nf t' by (metis word_unat_eq_iff)
  have "current_size q < total_size q"
    using n(3) by (simp add: word_less_nat_alt)
  then have c': "unat (current_size q + 1) = unat (current_size q) + 1"
    by (rule word_succ_lt)
  show cs: "unat (current_size q') = unat (current_size q) + 1"
    using c' by (simp add: q'_def)
  have "0 < total_size q"
    using n(1) by (simp add: word_less_nat_alt)
  then have "(tail q + 1) mod total_size q < total_size q"
    by (rule word_mod_less_divisor)
  then show "queue_inv q'"
    using h ring_put [OF n(1,2) nf'] k c' t' by (simp add: queue_inv_def q'_def)
  show "storage_ok q'"
    using blk by (simp add: storage_ok_def q'_def)
  have reach: "(unat (head q) + unat (current_size q)) mod unat (total_size q) = unat (tail q)"
    unfolding k by (rule ring_reach_tail [OF n(1,2)])
  have old: "blk[unat (tail q) := b] ! ((unat (head q) + i) mod unat (total_size q))
             = blk ! ((unat (head q) + i) mod unat (total_size q))"
    if "i < unat (current_size q)" for i
    using ring_idx_inj [OF that n(3), of "unat (head q)"] reach by simp
  have new: "blk[unat (tail q) := b] ! ((unat (head q) + unat (current_size q)) mod unat (total_size q)) = b"
    using reach n(2) blk(2) by simp
  show "contents q' = contents q @ [b]"
    using old new blk c' by (simp add: contents_def q'_def)
qed

lemma length_contents: "storage_ok q \<Longrightarrow> length (contents q) = unat (current_size q)"
  by (auto simp: contents_def storage_ok_def split: option.splits)

lemma get_step:
  fixes q :: queue_t and blk :: "u8 list"
  assumes inv: "queue_inv q" and blk: "data q = Some blk" "length blk = unat (total_size q)"
    and ne: "head q \<noteq> tail q"
  defines "q' \<equiv> q\<lparr>head := (head q + 1) mod total_size q,
                   current_size := current_size q - 1\<rparr>"
  shows "queue_inv q'" and "storage_ok q'"
    and "unat (current_size q') = unat (current_size q) - 1"
    and "0 < unat (current_size q)"
    and "contents q = blk ! unat (head q) # contents q'"
proof -
  note n = inv_nat [OF inv]
  have t: "tail q < total_size q" and h: "head q < total_size q"
    using inv by (simp_all add: queue_inv_def)
  have k: "unat (current_size q) = (unat (tail q) + unat (total_size q) - unat (head q)) mod unat (total_size q)"
    using inv by (simp add: queue_inv_def)
  have h': "unat ((head q + 1) mod total_size q) = (unat (head q) + 1) mod unat (total_size q)"
    by (rule word_succ_mod [OF h])
  have ne': "unat (head q) \<noteq> unat (tail q)"
    using ne by (simp add: word_unat_eq_iff)
  have c0: "current_size q \<noteq> 0"
    using empty_iff [OF inv] ne by simp
  then show pos: "0 < unat (current_size q)"
    by (simp add: unat_gt_0)
  have c': "unat (current_size q - 1) = unat (current_size q) - 1"
    by (rule word_pred [OF c0])
  show "unat (current_size q') = unat (current_size q) - 1"
    using c' by (simp add: q'_def)
  have "0 < total_size q"
    using n(1) by (simp add: word_less_nat_alt)
  then have "(head q + 1) mod total_size q < total_size q"
    by (rule word_mod_less_divisor)
  then show "queue_inv q'"
    using t ring_get [OF n(1,2) ne'] k c' h' by (simp add: queue_inv_def q'_def)
  show "storage_ok q'"
    using blk by (simp add: storage_ok_def q'_def)
  have sh: "((unat (head q) + 1) mod unat (total_size q) + i) mod unat (total_size q)
            = (unat (head q) + Suc i) mod unat (total_size q)" for i
    by (simp add: mod_add_left_eq)
  have "[0..<unat (current_size q)] = 0 # map Suc [0..<unat (current_size q) - 1]"
    using pos by (simp add: upt_conv_Cons map_Suc_upt)
  then show "contents q = blk ! unat (head q) # contents q'"
    using blk n(1) c' h' sh by (simp add: contents_def q'_def comp_def)
qed

subsection \<open>The loops on a queue in use\<close>

lemma put_loop_spec:
  assumes "queue_inv q" and "storage_ok q" and "put_num \<le> data_len"
    and "unat data_len \<le> length src"
  shows "\<exists>q'. put_loop q src data_len put_num =
           Inr (put_num + word_of_nat (min (unat data_len - unat put_num)
                                          (capacity q - unat (current_size q))), q') \<and>
         queue_inv q' \<and> storage_ok q' \<and> head q' = head q \<and> total_size q' = total_size q \<and>
         unat (current_size q') =
           unat (current_size q) + min (unat data_len - unat put_num)
                                       (capacity q - unat (current_size q)) \<and>
         contents q' =
           contents q @ take (min (unat data_len - unat put_num)
                                  (capacity q - unat (current_size q)))
                             (drop (unat put_num) src)"
  using assms
proof (induction q src data_len put_num rule: put_loop.induct)
  case (1 q src data_len put_num)
  note inv = \<open>queue_inv q\<close> and st = \<open>storage_ok q\<close>
  note n = inv_nat [OF inv]
  have tot: "total_size q \<noteq> 0"
    using n(1) by (auto simp: unat_eq_0)
  show ?case
  proof (cases "put_num < data_len")
    case False
    with \<open>put_num \<le> data_len\<close> have "put_num = data_len" by simp
    then show ?thesis
      using inv st by (subst put_loop.simps) simp
  next
    case lt: True
    show ?thesis
    proof (cases "(tail q + 1) mod total_size q = head q")
      case True
      then have "unat (current_size q) = capacity q"
        using full_iff [OF inv] by simp
      then show ?thesis
        using inv st lt True tot by (subst put_loop.simps) simp
    next
      case nf: False
      obtain blk where blk: "data q = Some blk" "length blk = unat (total_size q)"
        using st by (auto simp: storage_ok_def split: option.splits)
      have pn: "unat put_num < unat data_len"
        using lt by (simp add: word_less_nat_alt)
      have pn1: "unat (put_num + 1) = unat put_num + 1"
        by (rule word_succ_lt [OF lt])
      have le1: "put_num + 1 \<le> data_len"
        using pn pn1 by (simp add: word_le_nat_alt)
      have nob: "\<not> (length src \<le> unat put_num \<or> length blk \<le> unat (tail q))"
        using pn \<open>unat data_len \<le> length src\<close> blk(2) n(2) by simp
      let ?b = "src ! unat put_num"
      let ?q1 = "q\<lparr>data := Some (blk[unat (tail q) := ?b]),
                    tail := (tail q + 1) mod total_size q,
                    current_size := current_size q + 1\<rparr>"
      note s = put_step [OF inv blk nf, of ?b]
      have room: "unat (current_size q) < capacity q"
        using full_iff [OF inv] nf n(3) by (simp add: capacity_def)
      let ?m1 = "min (unat data_len - unat (put_num + 1)) (capacity ?q1 - unat (current_size ?q1))"
      obtain q' where q': "put_loop ?q1 src data_len (put_num + 1) = Inr (put_num + 1 + word_of_nat ?m1, q')"
        "queue_inv q'" "storage_ok q'" "head q' = head ?q1" "total_size q' = total_size ?q1"
        "unat (current_size q') = unat (current_size ?q1) + ?m1"
        "contents q' = contents ?q1 @ take ?m1 (drop (unat (put_num + 1)) src)"
        using "1.IH" [OF lt tot nf blk(1) nob s(1) s(2) le1 \<open>unat data_len \<le> length src\<close>]
        by blast
      have m: "min (unat data_len - unat put_num) (capacity q - unat (current_size q)) = Suc ?m1"
        using pn pn1 room s(3) by (simp add: capacity_def)
      have step: "put_loop q src data_len put_num = put_loop ?q1 src data_len (put_num + 1)"
        using lt tot nf blk(1) nob by (subst put_loop.simps) simp
      have dr: "take (Suc ?m1) (drop (unat put_num) src) = ?b # take ?m1 (drop (unat (put_num + 1)) src)"
        using pn \<open>unat data_len \<le> length src\<close> pn1
        by (simp add: Cons_nth_drop_Suc [symmetric])
      show ?thesis
        unfolding m step
        using q' s(3,4) dr by (intro exI [of _ q']) simp
    qed
  qed
qed

lemma get_loop_spec:
  assumes "queue_inv q" and "storage_ok q" and "get_num \<le> data_len"
    and "unat data_len \<le> length dst"
  shows "\<exists>q'. get_loop q dst data_len get_num =
           Inr (get_num + word_of_nat (min (unat data_len - unat get_num)
                                          (unat (current_size q))),
                take (unat get_num) dst @
                  take (min (unat data_len - unat get_num) (unat (current_size q))) (contents q) @
                  drop (unat get_num + min (unat data_len - unat get_num)
                                           (unat (current_size q))) dst,
                q') \<and>
         queue_inv q' \<and> storage_ok q' \<and> data q' = data q \<and> tail q' = tail q \<and>
         total_size q' = total_size q \<and>
         unat (current_size q') =
           unat (current_size q) - min (unat data_len - unat get_num) (unat (current_size q)) \<and>
         contents q' =
           drop (min (unat data_len - unat get_num) (unat (current_size q))) (contents q)"
  using assms
proof (induction q dst data_len get_num rule: get_loop.induct)
  case (1 q dst data_len get_num)
  note inv = \<open>queue_inv q\<close> and st = \<open>storage_ok q\<close>
  note n = inv_nat [OF inv]
  have tot: "total_size q \<noteq> 0"
    using n(1) by (auto simp: unat_eq_0)
  show ?case
  proof (cases "get_num < data_len")
    case False
    with \<open>get_num \<le> data_len\<close> have "get_num = data_len" by simp
    then show ?thesis
      using inv st by (subst get_loop.simps) simp
  next
    case lt: True
    show ?thesis
    proof (cases "head q = tail q")
      case True
      then have "unat (current_size q) = 0"
        using empty_iff [OF inv] by simp
      then show ?thesis
        using inv st lt True by (subst get_loop.simps) simp
    next
      case ne: False
      obtain blk where blk: "data q = Some blk" "length blk = unat (total_size q)"
        using st by (auto simp: storage_ok_def split: option.splits)
      have gn: "unat get_num < unat data_len"
        using lt by (simp add: word_less_nat_alt)
      have gn1: "unat (get_num + 1) = unat get_num + 1"
        by (rule word_succ_lt [OF lt])
      have le1: "get_num + 1 \<le> data_len"
        using gn gn1 by (simp add: word_le_nat_alt)
      have nob: "\<not> (length dst \<le> unat get_num \<or> length blk \<le> unat (head q))"
        using gn \<open>unat data_len \<le> length dst\<close> blk(2) n(1) by simp
      let ?b = "blk ! unat (head q)"
      let ?q1 = "q\<lparr>head := (head q + 1) mod total_size q,
                    current_size := current_size q - 1\<rparr>"
      let ?d1 = "dst[unat get_num := ?b]"
      note s = get_step [OF inv blk ne]
      let ?m1 = "min (unat data_len - unat (get_num + 1)) (unat (current_size ?q1))"
      have len1: "unat data_len \<le> length ?d1"
        using \<open>unat data_len \<le> length dst\<close> by simp
      obtain q' where q': "get_loop ?q1 ?d1 data_len (get_num + 1) =
          Inr (get_num + 1 + word_of_nat ?m1,
               take (unat (get_num + 1)) ?d1 @ take ?m1 (contents ?q1) @
                 drop (unat (get_num + 1) + ?m1) ?d1, q')"
        "queue_inv q'" "storage_ok q'" "data q' = data ?q1" "tail q' = tail ?q1"
        "total_size q' = total_size ?q1"
        "unat (current_size q') = unat (current_size ?q1) - ?m1"
        "contents q' = drop ?m1 (contents ?q1)"
        using "1.IH" [OF lt ne blk(1) nob tot s(1) s(2) le1 len1]
        by blast
      have m: "min (unat data_len - unat get_num) (unat (current_size q)) = Suc ?m1"
        using gn gn1 s(3,4) by simp
      have step: "get_loop q dst data_len get_num = get_loop ?q1 ?d1 data_len (get_num + 1)"
        using lt tot ne blk(1) nob by (subst get_loop.simps) simp
      have tk: "take (unat (get_num + 1)) ?d1 = take (unat get_num) dst @ [?b]"
        using gn \<open>unat data_len \<le> length dst\<close> gn1
        by (simp add: take_Suc_conv_app_nth)
      have dr: "drop (unat (get_num + 1) + ?m1) ?d1 = drop (unat get_num + Suc ?m1) dst"
        using gn1 by simp
      show ?thesis
        unfolding m step
        using q' s(3,5) tk dr by (intro exI [of _ q']) simp
    qed
  qed
qed

subsection \<open>The operations on a queue in use\<close>

lemma unat_count:
  fixes data_len :: u32
  shows "unat (word_of_nat (min (unat data_len) k) :: u32) = min (unat data_len) k"
  by (rule le_unat_uoi [of _ data_len]) simp

lemma put_data_spec:
  assumes "queue_inv q" and "storage_ok q" and "data_len \<noteq> 0"
    and "unat data_len \<le> length src"
  shows "\<exists>q'. queue_put_data (Some q) (Some src) data_len =
           Inr (word_of_nat (min (unat data_len) (capacity q - unat (current_size q))), Some q') \<and>
         queue_inv q' \<and> storage_ok q' \<and> head q' = head q \<and> total_size q' = total_size q \<and>
         unat (current_size q') =
           unat (current_size q) + min (unat data_len) (capacity q - unat (current_size q)) \<and>
         contents q' =
           contents q @ take (min (unat data_len) (capacity q - unat (current_size q))) src"
proof -
  obtain q' where "put_loop q src data_len 0 =
      Inr (0 + word_of_nat (min (unat data_len - unat (0::u32)) (capacity q - unat (current_size q))), q')"
    "queue_inv q'" "storage_ok q'" "head q' = head q" "total_size q' = total_size q"
    "unat (current_size q') = unat (current_size q) +
       min (unat data_len - unat (0::u32)) (capacity q - unat (current_size q))"
    "contents q' = contents q @
       take (min (unat data_len - unat (0::u32)) (capacity q - unat (current_size q)))
         (drop (unat (0::u32)) src)"
    using put_loop_spec [OF assms(1,2) _ assms(4), of 0] by auto
  then show ?thesis
    using assms(3) by (intro exI [of _ q']) (simp add: queue_put_data_def)
qed

lemma drain_spec:
  assumes "queue_inv q" and "storage_ok q" and "unat data_len \<le> length dst"
  shows "\<exists>q'. drain q dst data_len =
           Inr (word_of_nat (min (unat data_len) (unat (current_size q))),
                Some (take (min (unat data_len) (unat (current_size q))) (contents q) @
                      drop (min (unat data_len) (unat (current_size q))) dst),
                Some q') \<and>
         queue_inv q' \<and> storage_ok q' \<and> data q' = data q \<and> tail q' = tail q \<and>
         total_size q' = total_size q \<and>
         unat (current_size q') =
           unat (current_size q) - min (unat data_len) (unat (current_size q)) \<and>
         contents q' = drop (min (unat data_len) (unat (current_size q))) (contents q)"
proof -
  obtain q' where "get_loop q dst data_len 0 =
      Inr (0 + word_of_nat (min (unat data_len - unat (0::u32)) (unat (current_size q))),
           take (unat (0::u32)) dst @
             take (min (unat data_len - unat (0::u32)) (unat (current_size q))) (contents q) @
             drop (unat (0::u32) + min (unat data_len - unat (0::u32)) (unat (current_size q))) dst,
           q')"
    "queue_inv q'" "storage_ok q'" "data q' = data q" "tail q' = tail q"
    "total_size q' = total_size q"
    "unat (current_size q') = unat (current_size q) -
       min (unat data_len - unat (0::u32)) (unat (current_size q))"
    "contents q' = drop (min (unat data_len - unat (0::u32)) (unat (current_size q))) (contents q)"
    using get_loop_spec [OF assms(1,2) _ assms(3), of 0] by auto
  then show ?thesis
    by (intro exI [of _ q']) (simp add: drain_def)
qed

lemma init_value:
  assumes "queue_size \<noteq> 0"
  shows "queue_init (Some fill) (Some q0) queue_size =
           (True, Some \<lparr>data = Some (map fill [0..<unat (queue_size + 1)]), head = 0, tail = 0,
                        total_size = queue_size + 1, current_size = 0\<rparr>)"
  using assms by (simp add: queue_init_def malloc_def sizeof_uint8_t_def Let_def add.commute)

lemma init_inv:
  fixes queue_size :: u32 and fill :: "nat \<Rightarrow> u8"
  assumes "queue_size \<noteq> - 1"
  defines "q \<equiv> \<lparr>data = Some (map fill [0..<unat (queue_size + 1)]), head = 0, tail = 0,
                 total_size = queue_size + 1, current_size = 0\<rparr>"
  shows "queue_inv q" and "storage_ok q" and "capacity q = unat queue_size" and "contents q = []"
proof -
  have "queue_size + 1 \<noteq> 0"
    using assms(1) by (metis add.commute add.right_inverse add_left_cancel)
  then have u: "unat (queue_size + 1) = Suc (unat queue_size)"
    by (metis add.commute unatSuc)
  then have "0 < queue_size + 1"
    by (simp add: word_less_nat_alt)
  then show "queue_inv q"
    by (simp add: queue_inv_def q_def)
  show "storage_ok q"
    by (simp add: storage_ok_def q_def)
  show "capacity q = unat queue_size"
    using u by (simp add: capacity_def q_def)
  show "contents q = []"
    by (simp add: contents_def q_def)
qed

lemma put_when_full:
  assumes "queue_inv q" and "unat (current_size q) = capacity q" and "data_len \<noteq> 0"
  shows "queue_put_data (Some q) (Some src) data_len = Inr (0, Some q)"
proof -
  have f: "(tail q + 1) mod total_size q = head q"
    using full_iff [OF assms(1)] assms(2) by simp
  have t: "total_size q \<noteq> 0"
    using inv_nat(1) [OF assms(1)] by (auto simp: unat_eq_0)
  have "0 < data_len"
    using assms(3) by (simp add: word_neq_0_conv)
  then have "put_loop q src data_len 0 = Inr (0, q)"
    using f t by (subst put_loop.simps) simp
  then show ?thesis
    using assms(3) by (simp add: queue_put_data_def)
qed

lemma get_data_no_wait:
  assumes "current_size q \<noteq> 0" and "data_len \<noteq> 0"
  shows "queue_get_data wakes (Some q) (Some dst) data_len = Some (drain q dst data_len)"
proof -
  have "wait_loop wakes q = Some q"
    using assms(1) by (cases "(wakes, q)" rule: wait_loop.cases)
      (auto simp: queue_get_current_size_def)
  then show ?thesis
    using assms(2) by (simp add: queue_get_data_def)
qed

lemma put_all_contents:
  assumes "queue_inv q" and "storage_ok q" and "put_all q ds = Some q1"
  shows "queue_inv q1 \<and> storage_ok q1 \<and> contents q1 = contents q @ concat ds"
  using assms
proof (induction ds arbitrary: q)
  case Nil
  then show ?case by simp
next
  case (Cons bytes rest)
  let ?len = "word_of_nat (length bytes) :: u32"
  let ?m = "min (unat ?len) (capacity q - unat (current_size q))"
  from Cons.prems(3) have ne: "bytes \<noteq> []" and lt: "length bytes < 2 ^ 32"
    by (auto split: if_splits)
  have ul: "unat ?len = length bytes"
    using lt by (simp add: unat_of_nat)
  have nz: "?len \<noteq> 0"
    using ul ne by (metis length_0_conv unat_0)
  obtain q' where q': "queue_put_data (Some q) (Some bytes) ?len = Inr (word_of_nat ?m, Some q')"
    "queue_inv q'" "storage_ok q'" "contents q' = contents q @ take ?m bytes"
    using put_data_spec [OF Cons.prems(1,2) nz, of bytes] ul by auto
  from Cons.prems(3) ne lt have eq: "(word_of_nat ?m :: u32) = ?len" and rest: "put_all q' rest = Some q1"
    by (auto simp: q'(1) not_le split: if_splits)
  have "?m = length bytes"
    using eq unat_count [of ?len] ul by metis
  then have c: "contents q' = contents q @ bytes"
    using q'(4) by simp
  show ?case
    using Cons.IH [OF q'(2,3) rest] c by simp
qed


lemma get_all_contents:
  assumes "queue_inv q" and "storage_ok q" and "0 \<notin> set ns"
    and "sum_list (map unat ns) \<le> unat (current_size q)"
  shows "\<exists>q'. get_all q ns = Some (take (sum_list (map unat ns)) (contents q), q') \<and>
           queue_inv q' \<and> storage_ok q' \<and>
           contents q' = drop (sum_list (map unat ns)) (contents q) \<and>
           unat (current_size q') = unat (current_size q) - sum_list (map unat ns)"
  using assms
proof (induction ns arbitrary: q)
  case Nil
  then show ?case by simp
next
  case (Cons n ns)
  let ?k = "unat (current_size q)"
  let ?s = "sum_list (map unat ns)"
  have nz: "n \<noteq> 0" and zs: "0 \<notin> set ns"
    using Cons.prems(3) by auto
  have npos: "0 < unat n"
    using nz by (simp add: unat_gt_0)
  have le: "unat n \<le> ?k" and les: "?s \<le> ?k - unat n"
    using Cons.prems(4) by simp_all
  have ne: "current_size q \<noteq> 0"
    using le npos by (auto simp: unat_eq_0)
  have m: "min (unat n) ?k = unat n"
    using le by simp
  obtain q' where q': "drain q (replicate (unat n) 0) n =
      Inr (word_of_nat (min (unat n) ?k),
           Some (take (min (unat n) ?k) (contents q) @
                 drop (min (unat n) ?k) (replicate (unat n) 0)),
           Some q')"
    "queue_inv q'" "storage_ok q'"
    "unat (current_size q') = ?k - min (unat n) ?k"
    "contents q' = drop (min (unat n) ?k) (contents q)"
    using drain_spec [OF Cons.prems(1,2), of n "replicate (unat n) 0"] by auto
  have g: "queue_get_data [] (Some q) (Some (replicate (unat n) 0)) n =
      Some (Inr (n, Some (take (unat n) (contents q)), Some q'))"
    using q'(1) by (simp add: get_data_no_wait [OF ne nz] m)
  obtain q'' where q'': "get_all q' ns = Some (take ?s (contents q'), q'')"
    "queue_inv q''" "storage_ok q''" "contents q'' = drop ?s (contents q')"
    "unat (current_size q'') = unat (current_size q') - ?s"
    using Cons.IH [OF q'(2,3) zs] les q'(4) by (auto simp: m)
  have lc: "unat n \<le> length (contents q)"
    using le length_contents [OF Cons.prems(2)] by simp
  have "get_all q (n # ns) =
      Some (take (unat n) (contents q) @ take ?s (drop (unat n) (contents q)), q'')"
    using nz g q''(1) q'(5) lc by (simp add: m min_absorb2)
  then show ?case
    using q''(2-5) q'(4,5) by (intro exI [of _ q'']) (simp add: m take_add add.commute)
qed

lemma init_total_ge_2:
  fixes queue_size :: u32
  assumes "queue_size \<noteq> 0" and "queue_size \<noteq> - 1"
  shows "2 \<le> queue_size + 1"
proof -
  have "queue_size + 1 \<noteq> 0"
    using assms(2) by (metis add.commute add.right_inverse add_left_cancel)
  then have "unat (queue_size + 1) = Suc (unat queue_size)"
    by (metis add.commute unatSuc)
  moreover have "0 < unat queue_size"
    using assms(1) by (simp add: unat_gt_0)
  ultimately show ?thesis
    by (simp add: word_le_nat_alt)
qed

lemma queue_inv_preserved:
  assumes "queue_inv q" and "storage_ok q"
  shows "\<exists>q'. queue_clear (Some q) = (True, Some q') \<and> queue_inv q' \<and> storage_ok q'"
    and "data_len \<noteq> 0 \<Longrightarrow> unat data_len \<le> length src \<Longrightarrow>
         \<exists>ret q'. queue_put_data (Some q) (Some src) data_len = Inr (ret, Some q') \<and>
           queue_inv q' \<and> storage_ok q'"
    and "unat data_len \<le> length dst \<Longrightarrow>
         \<exists>ret buf q'. drain q dst data_len = Inr (ret, Some buf, Some q') \<and>
           queue_inv q' \<and> storage_ok q'"
proof -
  have "0 < total_size q"
    using inv_nat(1) [OF assms(1)] by (simp add: word_less_nat_alt)
  then show "\<exists>q'. queue_clear (Some q) = (True, Some q') \<and> queue_inv q' \<and> storage_ok q'"
    using assms(2) by (auto simp: queue_clear_def queue_inv_def storage_ok_def split: option.splits)
  show "\<exists>ret q'. queue_put_data (Some q) (Some src) data_len = Inr (ret, Some q') \<and>
           queue_inv q' \<and> storage_ok q'"
    if "data_len \<noteq> 0" "unat data_len \<le> length src"
    using put_data_spec [OF assms that] by blast
  show "\<exists>ret buf q'. drain q dst data_len = Inr (ret, Some buf, Some q') \<and>
           queue_inv q' \<and> storage_ok q'"
    if "unat data_len \<le> length dst"
    using drain_spec [OF assms that] by blast
qed

lemma drain_empty:
  assumes "head q = tail q"
  shows "drain q dst data_len = Inr (0, Some dst, Some q)"
  using assms by (simp add: drain_def)

text \<open>
  The timed get: with bytes in the queue it drains at once; on an empty queue the first
  wake-up decides, and only \<^verbatim>\<open>EINTR\<close> makes it wait again.
\<close>

lemma timed_get_when_not_empty:
  assumes "current_size q \<noteq> 0" and "data_len \<noteq> 0"
  shows "queue_get_data_with_timeout wakes (Some q) (Some dst) data_len timeout =
           Some (drain q dst data_len)"
proof -
  have "timedwait_loop wakes q = Some (Proceed q)"
    using assms(1) by (cases "(wakes, q)" rule: timedwait_loop.cases)
      (auto simp: queue_get_current_size_def)
  then show ?thesis
    using assms(2) by (simp add: queue_get_data_with_timeout_def)
qed

lemma timed_get_when_empty:
  assumes "current_size q = 0" and "data_len \<noteq> 0" and "timeout \<noteq> 0"
  shows "queue_get_data_with_timeout (Wake ret others # wakes) (Some q) (Some dst)
             data_len timeout =
           (if ret = EINTR
            then queue_get_data_with_timeout wakes (Some (others q)) (Some dst) data_len timeout
            else Some (Inr (- 1, Some dst, Some (others q))))"
proof -
  have "0 < timeout"
    using assms(3) by (simp add: word_neq_0_conv)
  then show ?thesis
    using assms(1,2)
    by (auto simp: queue_get_data_with_timeout_def queue_get_current_size_def)
qed

lemma timed_get_after_timeout:
  assumes "current_size q = 0" and "data_len \<noteq> 0" and "timeout \<noteq> 0"
  shows "queue_get_data_with_timeout (Wake ETIMEDOUT others # wakes) (Some q) (Some dst)
             data_len timeout =
           Some (Inr (- 1, Some dst, Some (others q)))"
  using timed_get_when_empty [OF assms] by (simp add: EINTR_def ETIMEDOUT_def)

subsection \<open>Bytes moved, counts kept and values returned\<close>

text \<open>
  A valid call of \<^verbatim>\<open>queue_put_data\<close> on a queue in use, of capacity \<open>C\<close> and
  holding \<open>k\<close> bytes, stores exactly the first \<open>min data_len (C - k)\<close> bytes of the
  caller's data behind the bytes held, and the count goes up by as many. The drain step
  moves exactly the oldest \<open>min max_len k\<close> bytes to the front of the caller's buffer.
  The word each returns is that number; read as \<^verbatim>\<open>int\<close> it is that number only
  below \<open>2^31\<close>.
\<close>

lemma put_and_drain_counts:
  assumes "queue_inv q" and "storage_ok q"
    and "data_len \<noteq> 0" and "unat data_len \<le> length src"
    and "max_len \<noteq> 0" and "unat max_len \<le> length dst"
  shows "(\<exists>ret q'. queue_put_data (Some q) (Some src) data_len = Inr (ret, Some q') \<and>
            unat ret = min (unat data_len) (capacity q - unat (current_size q)) \<and>
            sint ret = (if unat ret < 2 ^ 31 then int (unat ret) else int (unat ret) - 2 ^ 32) \<and>
            unat (current_size q') = unat (current_size q) + unat ret \<and>
            contents q' = contents q @ take (unat ret) src \<and> queue_inv q') \<and>
         (\<exists>ret buf q'. drain q dst max_len = Inr (ret, Some buf, Some q') \<and>
            unat ret = min (unat max_len) (unat (current_size q)) \<and>
            sint ret = (if unat ret < 2 ^ 31 then int (unat ret) else int (unat ret) - 2 ^ 32) \<and>
            buf = take (unat ret) (contents q) @ drop (unat ret) dst \<and>
            unat (current_size q') = unat (current_size q) - unat ret \<and>
            contents q' = drop (unat ret) (contents q) \<and> queue_inv q')"
proof -
  obtain q1 where "queue_put_data (Some q) (Some src) data_len =
      Inr (word_of_nat (min (unat data_len) (capacity q - unat (current_size q))), Some q1)"
    "queue_inv q1"
    "unat (current_size q1) =
       unat (current_size q) + min (unat data_len) (capacity q - unat (current_size q))"
    "contents q1 =
       contents q @ take (min (unat data_len) (capacity q - unat (current_size q))) src"
    using put_data_spec [OF assms(1-4)] by blast
  then have p: "\<exists>ret q'. queue_put_data (Some q) (Some src) data_len = Inr (ret, Some q') \<and>
            unat ret = min (unat data_len) (capacity q - unat (current_size q)) \<and>
            sint ret = (if unat ret < 2 ^ 31 then int (unat ret) else int (unat ret) - 2 ^ 32) \<and>
            unat (current_size q') = unat (current_size q) + unat ret \<and>
            contents q' = contents q @ take (unat ret) src \<and> queue_inv q'"
    using unat_count [of data_len] sint_unat
    by (intro exI [of _ "word_of_nat (min (unat data_len) (capacity q - unat (current_size q)))"]
          exI [of _ q1]) simp
  obtain q2 where "drain q dst max_len =
      Inr (word_of_nat (min (unat max_len) (unat (current_size q))),
           Some (take (min (unat max_len) (unat (current_size q))) (contents q) @
                 drop (min (unat max_len) (unat (current_size q))) dst),
           Some q2)"
    "queue_inv q2"
    "unat (current_size q2) =
       unat (current_size q) - min (unat max_len) (unat (current_size q))"
    "contents q2 = drop (min (unat max_len) (unat (current_size q))) (contents q)"
    using drain_spec [OF assms(1,2,6)] by blast
  then have d: "\<exists>ret buf q'. drain q dst max_len = Inr (ret, Some buf, Some q') \<and>
            unat ret = min (unat max_len) (unat (current_size q)) \<and>
            sint ret = (if unat ret < 2 ^ 31 then int (unat ret) else int (unat ret) - 2 ^ 32) \<and>
            buf = take (unat ret) (contents q) @ drop (unat ret) dst \<and>
            unat (current_size q') = unat (current_size q) - unat ret \<and>
            contents q' = drop (unat ret) (contents q) \<and> queue_inv q'"
    using unat_count [of max_len] sint_unat
    by (intro exI [of _ "word_of_nat (min (unat max_len) (unat (current_size q)))"]
          exI [of _ "take (min (unat max_len) (unat (current_size q))) (contents q) @
                 drop (min (unat max_len) (unat (current_size q))) dst"]
          exI [of _ q2]) simp
  show ?thesis
    using p d by (rule conjI)
qed

lemma put_and_drain_counts_witness:
  "queue_inv ring5 \<and> storage_ok ring5 \<and> (3::u32) \<noteq> 0 \<and> unat (3::u32) \<le> length [7, 8, 9 :: u8] \<and>
   (5::u32) \<noteq> 0 \<and> unat (5::u32) \<le> length [0, 0, 0, 0, 0 :: u8] \<and>
   contents ring5 = [4, 5] \<and> capacity ring5 = 4 \<and>
   (\<exists>ret q'. queue_put_data (Some ring5) (Some [7, 8, 9]) 3 = Inr (ret, Some q') \<and>
        unat ret = 2 \<and> sint ret = 2 \<and> unat (current_size q') = 4 \<and>
        contents q' = [4, 5, 7, 8] \<and> queue_inv q') \<and>
   (\<exists>ret buf q'. drain ring5 [0, 0, 0, 0, 0] 5 = Inr (ret, Some buf, Some q') \<and>
        unat ret = 2 \<and> sint ret = 2 \<and> buf = [4, 5, 0, 0, 0] \<and>
        unat (current_size q') = 0 \<and> contents q' = [] \<and> queue_inv q')"
proof -
  have i: "queue_inv ring5" and s: "storage_ok ring5"
    by (simp_all add: ring5_def queue_inv_def storage_ok_def)
  have c: "contents ring5 = [4, 5]" and k: "capacity ring5 = 4"
    and n: "unat (current_size ring5) = 2"
    by (simp_all add: ring5_def contents_def capacity_def upt_rec)
  have l: "(3::u32) \<noteq> 0" "unat (3::u32) \<le> length [7, 8, 9 :: u8]"
    "(5::u32) \<noteq> 0" "unat (5::u32) \<le> length [0, 0, 0, 0, 0 :: u8]"
    by simp_all
  show ?thesis
    using i s l c k put_and_drain_counts [OF i s l] by (auto simp: c k n)
qed

text \<open>
  \<^verbatim>\<open>queue_put_data\<close> returns \<open>-1\<close> when the queue pointer is null, the data
  pointer is null or the length is zero, and the struct is left alone. The word returned
  by a valid call on a queue in use is not the word of \<open>-1\<close>; the call stores a
  prefix of the caller's bytes, at most \<open>data_len\<close> of them, and a call that stores
  less than it was given leaves the queue full.
\<close>

lemma put_fails_only_on_bad_arguments:
  assumes "queue_inv q" and "storage_ok q" and "unat data_len \<le> length bytes"
  shows "queue_put_data None src data_len = Inr (- 1, None) \<and>
         queue_put_data queue_name None data_len = Inr (- 1, queue_name) \<and>
         queue_put_data queue_name src 0 = Inr (- 1, queue_name) \<and>
         (data_len \<noteq> 0 \<longrightarrow>
          (\<exists>ret q'. queue_put_data (Some q) (Some bytes) data_len = Inr (ret, Some q') \<and>
             ret \<noteq> - 1 \<and>
             contents q' = contents q @ take (unat ret) bytes \<and>
             unat ret \<le> unat data_len \<and>
             sint ret = (if unat ret < 2 ^ 31 then int (unat ret) else int (unat ret) - 2 ^ 32) \<and>
             (unat ret < 2 ^ 31 \<longrightarrow> 0 \<le> sint ret \<and> sint ret \<le> int (unat data_len)) \<and>
             (unat ret < unat data_len \<longrightarrow> unat (current_size q') = capacity q')))"
proof -
  have a: "queue_put_data None src data_len = Inr (- 1, None)"
    by (simp add: queue_put_data_def)
  have b: "queue_put_data queue_name None data_len = Inr (- 1, queue_name)"
    by (cases queue_name) (simp_all add: queue_put_data_def)
  have c: "queue_put_data queue_name src 0 = Inr (- 1, queue_name)"
    by (cases queue_name; cases src) (simp_all add: queue_put_data_def)
  have d: "\<exists>ret q'. queue_put_data (Some q) (Some bytes) data_len = Inr (ret, Some q') \<and>
             ret \<noteq> - 1 \<and>
             contents q' = contents q @ take (unat ret) bytes \<and>
             unat ret \<le> unat data_len \<and>
             sint ret = (if unat ret < 2 ^ 31 then int (unat ret) else int (unat ret) - 2 ^ 32) \<and>
             (unat ret < 2 ^ 31 \<longrightarrow> 0 \<le> sint ret \<and> sint ret \<le> int (unat data_len)) \<and>
             (unat ret < unat data_len \<longrightarrow> unat (current_size q') = capacity q')"
    if nz: "data_len \<noteq> 0"
  proof -
    let ?m = "min (unat data_len) (capacity q - unat (current_size q))"
    obtain q' where q': "queue_put_data (Some q) (Some bytes) data_len =
        Inr (word_of_nat ?m, Some q')"
      "total_size q' = total_size q"
      "unat (current_size q') = unat (current_size q) + ?m"
      "contents q' = contents q @ take ?m bytes"
      using put_data_spec [OF assms(1,2) nz assms(3)] by blast
    have u: "unat (word_of_nat ?m :: u32) = ?m"
      by (rule unat_count)
    have k: "unat (current_size q) \<le> capacity q"
      using inv_nat(3) [OF assms(1)] by (simp add: capacity_def)
    have "capacity q < unat (- 1 :: u32)"
      using inv_nat(1) [OF assms(1)] unsigned_less [of "total_size q", where 'a = nat]
      by (simp add: capacity_def unsigned_minus_1_eq_mask mask_eq_exp_minus_1)
    then have "?m \<noteq> unat (- 1 :: u32)"
      by simp
    then have ne: "(word_of_nat ?m :: u32) \<noteq> - 1"
      using u by metis
    have full: "unat (current_size q') = capacity q'" if "?m < unat data_len"
      using that q'(2,3) k by (simp add: capacity_def)
    have rng: "0 \<le> sint (word_of_nat ?m :: u32) \<and>
               sint (word_of_nat ?m :: u32) \<le> int (unat data_len)"
      if small: "unat (word_of_nat ?m :: u32) < 2 ^ 31"
    proof -
      have "sint (word_of_nat ?m :: u32) = int (unat (word_of_nat ?m :: u32))"
        using small by (simp only: sint_unat [of "word_of_nat ?m"] if_True)
      also have "\<dots> = int ?m"
        by (simp only: u)
      finally have e: "sint (word_of_nat ?m :: u32) = int ?m" .
      have "int ?m \<le> int (unat data_len)"
        by (rule iffD2 [OF of_nat_le_iff]) (rule min.cobounded1)
      moreover have "0 \<le> int ?m"
        by (rule of_nat_0_le_iff)
      ultimately show ?thesis
        unfolding e by (rule conjI [rotated])
    qed
    show ?thesis
      using q' u ne full rng sint_unat [of "word_of_nat ?m"]
      by (intro exI [of _ "word_of_nat ?m"] exI [of _ q']) simp
  qed
  show ?thesis
    using a b c d by blast
qed

lemma put_fails_only_on_bad_arguments_witness:
  "queue_inv ring5 \<and> storage_ok ring5 \<and> unat (3::u32) \<le> length [7, 8, 9 :: u8] \<and> (3::u32) \<noteq> 0 \<and>
   queue_put_data None (Some [7, 8, 9]) 3 = Inr (- 1, None) \<and>
   queue_put_data (Some ring5) None 3 = Inr (- 1, Some ring5) \<and>
   queue_put_data (Some ring5) (Some [7, 8, 9]) 0 = Inr (- 1, Some ring5) \<and>
   (\<exists>ret q'. queue_put_data (Some ring5) (Some [7, 8, 9]) 3 = Inr (ret, Some q') \<and>
        ret \<noteq> - 1 \<and> sint ret = 2 \<and> contents q' = [4, 5, 7, 8] \<and>
        unat (current_size q') = capacity q')"
proof -
  have i: "queue_inv ring5" and s: "storage_ok ring5"
    by (simp_all add: ring5_def queue_inv_def storage_ok_def)
  have l: "unat (3::u32) \<le> length [7, 8, 9 :: u8]" and z: "(3::u32) \<noteq> 0"
    by simp_all
  have r: "queue_put_data (Some ring5) (Some [7, 8, 9]) 3 =
      Inr (2, Some \<lparr>data = Some [7, 8, 3, 4, 5], head = 3, tail = 2, total_size = 5,
                    current_size = 4\<rparr>)"
    by (simp add: queue_put_data_def ring5_def)
  have c: "contents ring5 = [4, 5]"
    by (simp add: ring5_def contents_def upt_rec)
  show ?thesis
    using i s l z put_fails_only_on_bad_arguments [OF i s l, of "Some [7, 8, 9]" "Some ring5"]
    by (auto simp: r c)
qed

text \<open>
  For every capacity \<open>N\<close> from 1 to \<open>2^32 - 2\<close>: after \<^verbatim>\<open>queue_init\<close> with
  \<open>N\<close>, one call of \<^verbatim>\<open>queue_put_data\<close> with \<open>N\<close> bytes stores them all. Any
  valid call that follows returns 0 and leaves the struct as it was, so the calls after
  it return 0 as well, for as long as nothing is taken out; once a call of
  \<^verbatim>\<open>queue_get_data\<close> has taken one byte, a call with one byte returns 1.
\<close>

lemma full_queue_takes_nothing:
  assumes "queue_size \<noteq> 0" and "queue_size \<noteq> - 1"
    and "unat queue_size \<le> length bytes"
    and "data_len \<noteq> 0" and "extra \<noteq> []" and "dst \<noteq> []"
  shows "\<exists>q q1. queue_init (Some fill) (Some q0) queue_size = (True, Some q) \<and>
           current_size q = 0 \<and> capacity q = unat queue_size \<and>
           queue_put_data (Some q) (Some bytes) queue_size = Inr (queue_size, Some q1) \<and>
           contents q1 = take (unat queue_size) bytes \<and>
           (unat queue_size < 2 ^ 31 \<longrightarrow>
              returned (queue_put_data (Some q) (Some bytes) queue_size) =
                Some (int (unat queue_size))) \<and>
           queue_put_data (Some q1) (Some extra) data_len = Inr (0, Some q1) \<and>
           (\<exists>buf q2 q3. queue_get_data [] (Some q1) (Some dst) 1 =
                           Some (Inr (1, Some buf, Some q2)) \<and>
                         queue_put_data (Some q2) (Some extra) 1 = Inr (1, Some q3))"
proof -
  let ?q = "\<lparr>data = Some (map fill [0..<unat (queue_size + 1)]), head = 0, tail = 0,
             total_size = queue_size + 1, current_size = 0\<rparr>"
  note iv = init_value [OF assms(1), of fill q0]
  note ii = init_inv [OF assms(2), of fill]
  let ?n = "unat queue_size"
  have npos: "0 < ?n"
    using assms(1) by (simp add: unat_gt_0)
  obtain q1 where q1: "queue_put_data (Some ?q) (Some bytes) queue_size =
      Inr (word_of_nat (min ?n (capacity ?q - unat (current_size ?q))), Some q1)"
    "queue_inv q1" "storage_ok q1" "total_size q1 = total_size ?q"
    "unat (current_size q1) =
       unat (current_size ?q) + min ?n (capacity ?q - unat (current_size ?q))"
    "contents q1 = contents ?q @ take (min ?n (capacity ?q - unat (current_size ?q))) bytes"
    using put_data_spec [OF ii(1,2) assms(1,3)] by blast
  have m: "min ?n (capacity ?q - unat (current_size ?q)) = ?n"
    using ii(3) by simp
  have c1: "unat (current_size q1) = ?n" and cap1: "capacity q1 = ?n"
    using q1(4,5) ii(3) by (simp_all add: m capacity_def)
  have p: "queue_put_data (Some ?q) (Some bytes) queue_size = Inr (queue_size, Some q1)"
    using q1(1) ii(3) by simp
  have r: "returned (queue_put_data (Some ?q) (Some bytes) queue_size) = Some (int ?n)"
    if "?n < 2 ^ 31"
    using that sint_unat [of queue_size] by (simp add: p returned_def)
  have full: "queue_put_data (Some q1) (Some extra) data_len = Inr (0, Some q1)"
    using put_when_full [OF q1(2) _ assms(4)] c1 cap1 by simp
  have ne: "current_size q1 \<noteq> 0"
    using c1 npos by (auto simp: unat_eq_0)
  have one: "(1::u32) \<noteq> 0" and ld: "unat (1::u32) \<le> length dst" and lm: "unat (1::u32) \<le> length extra"
    using assms(5,6) by (simp_all add: Suc_le_eq)
  obtain q2 where q2: "drain q1 dst 1 =
      Inr (word_of_nat (min (unat (1::u32)) (unat (current_size q1))),
           Some (take (min (unat (1::u32)) (unat (current_size q1))) (contents q1) @
                 drop (min (unat (1::u32)) (unat (current_size q1))) dst),
           Some q2)"
    "queue_inv q2" "storage_ok q2" "total_size q2 = total_size q1"
    "unat (current_size q2) =
       unat (current_size q1) - min (unat (1::u32)) (unat (current_size q1))"
    using drain_spec [OF q1(2,3) ld] by blast
  have m1: "min (unat (1::u32)) (unat (current_size q1)) = 1"
    using c1 npos by simp
  have g: "queue_get_data [] (Some q1) (Some dst) 1 =
      Some (Inr (1, Some (take 1 (contents q1) @ drop 1 dst), Some q2))"
    using q2(1) m1 by (simp add: get_data_no_wait [OF ne one])
  obtain q3 where q3: "queue_put_data (Some q2) (Some extra) 1 =
      Inr (word_of_nat (min (unat (1::u32)) (capacity q2 - unat (current_size q2))), Some q3)"
    using put_data_spec [OF q2(2,3) one lm] by blast
  have "min (unat (1::u32)) (capacity q2 - unat (current_size q2)) = 1"
    using q2(4,5) c1 cap1 npos m1 by (simp add: capacity_def)
  then have again: "queue_put_data (Some q2) (Some extra) 1 = Inr (1, Some q3)"
    using q3 by simp
  show ?thesis
    using iv ii(3) p q1(6) ii(4) r full g again by (intro exI [of _ ?q] exI [of _ q1]) (simp add: m)
qed

lemma full_queue_takes_nothing_witness:
  "(4::u32) \<noteq> 0 \<and> (4::u32) \<noteq> - 1 \<and> unat (4::u32) \<le> length [1, 2, 3, 4 :: u8] \<and>
   (1::u32) \<noteq> 0 \<and> [5 :: u8] \<noteq> [] \<and> [0 :: u8] \<noteq> [] \<and> unat (4::u32) < 2 ^ 31 \<and>
   queue_init (Some (\<lambda>i. 0)) (Some zeroed) 4 =
     (True, Some \<lparr>data = Some [0, 0, 0, 0, 0], head = 0, tail = 0, total_size = 5,
                  current_size = 0\<rparr>) \<and>
   queue_put_data
       (Some \<lparr>data = Some [0, 0, 0, 0, 0], head = 0, tail = 0, total_size = 5,
              current_size = 0\<rparr>)
       (Some [1, 2, 3, 4]) 4 =
     Inr (4, Some \<lparr>data = Some [1, 2, 3, 4, 0], head = 0, tail = 4, total_size = 5,
                   current_size = 4\<rparr>) \<and>
   returned (queue_put_data
       (Some \<lparr>data = Some [0, 0, 0, 0, 0], head = 0, tail = 0, total_size = 5,
              current_size = 0\<rparr>)
       (Some [1, 2, 3, 4]) 4) = Some 4 \<and>
   queue_put_data
       (Some \<lparr>data = Some [1, 2, 3, 4, 0], head = 0, tail = 4, total_size = 5,
              current_size = 4\<rparr>)
       (Some [5]) 1 =
     Inr (0, Some \<lparr>data = Some [1, 2, 3, 4, 0], head = 0, tail = 4, total_size = 5,
                   current_size = 4\<rparr>) \<and>
   (\<exists>buf q2 q3.
      queue_get_data []
          (Some \<lparr>data = Some [1, 2, 3, 4, 0], head = 0, tail = 4, total_size = 5,
                 current_size = 4\<rparr>)
          (Some [0]) 1 = Some (Inr (1, Some buf, Some q2)) \<and>
      queue_put_data (Some q2) (Some [5]) 1 = Inr (1, Some q3))"
proof -
  have h: "(4::u32) \<noteq> 0" "(4::u32) \<noteq> - 1" "unat (4::u32) \<le> length [1, 2, 3, 4 :: u8]"
    "(1::u32) \<noteq> 0" "[5 :: u8] \<noteq> []" "[0 :: u8] \<noteq> []"
    by simp_all
  have s: "unat (4::u32) < 2 ^ 31"
    by simp
  have i: "queue_init (Some (\<lambda>i. 0)) (Some zeroed) 4 =
     (True, Some \<lparr>data = Some [0, 0, 0, 0, 0], head = 0, tail = 0, total_size = 5,
                  current_size = 0\<rparr>)"
    by (simp add: queue_init_def malloc_def sizeof_uint8_t_def upt_rec)
  have p: "queue_put_data
       (Some \<lparr>data = Some [0, 0, 0, 0, 0], head = 0, tail = 0, total_size = 5,
              current_size = 0\<rparr>)
       (Some [1, 2, 3, 4]) 4 =
     Inr (4, Some \<lparr>data = Some [1, 2, 3, 4, 0], head = 0, tail = 4, total_size = 5,
                   current_size = 4\<rparr>)"
    by (simp add: queue_put_data_def)
  show ?thesis
    using h s full_queue_takes_nothing [OF h, of "\<lambda>i. 0" zeroed]
    by (auto simp: i p)
qed

section \<open>The claims\<close>

text \<open>
  C8. In every state of the queue, \<^verbatim>\<open>queue_is_empty\<close> answers true exactly when
  \<^verbatim>\<open>queue_get_current_size\<close> answers 0: both read the cached count
  \<open>current_size\<close>.
\<close>

theorem is_empty_iff_size_zero:
  "queue_is_empty q = (queue_get_current_size q = 0)"
  by (simp add: queue_is_empty_def queue_get_current_size_def)

text \<open>
  C6. \<^verbatim>\<open>queue_clear\<close> on a queue that is not null returns true and leaves a struct
  with \<open>head\<close>, \<open>tail\<close> and \<open>current_size\<close> zero and with the storage pointer,
  the bytes of the storage and \<open>total_size\<close> as they were; it returns false exactly
  when the pointer to the queue is null.
\<close>

theorem clear_resets_indices_only:
  "fst (queue_clear (Some q)) \<and>
   (\<exists>q'. snd (queue_clear (Some q)) = Some q' \<and>
         head q' = 0 \<and> tail q' = 0 \<and> current_size q' = 0 \<and>
         data q' = data q \<and> total_size q' = total_size q) \<and>
   (\<not> fst (queue_clear queue_name)) = (queue_name = None)"
  by (cases queue_name) (simp_all add: queue_clear_def)

text \<open>
  C5. A valid call of \<^verbatim>\<open>queue_get_data_with_timeout\<close> with a timeout of 0 waits
  for nothing: whatever wake-ups would come, it returns, and what it returns is the
  drain step on the queue as it stands. On an empty queue (\<open>head = tail\<close>, which in a
  queue in use is the same as a cached count of zero) this is 0, not \<open>-1\<close>, and
  neither the buffer nor the queue changes.
\<close>

theorem timeout_zero_never_waits:
  assumes "data_len \<noteq> 0"
  shows "queue_get_data_with_timeout wakes (Some q) (Some dst) data_len 0 =
           Some (drain q dst data_len) \<and>
         (head q = tail q \<or> (queue_inv q \<and> queue_is_empty q) \<longrightarrow>
          queue_get_data_with_timeout wakes (Some q) (Some dst) data_len 0 =
            Some (Inr (0, Some dst, Some q)))"
proof -
  have d: "queue_get_data_with_timeout wakes (Some q) (Some dst) data_len 0 =
             Some (drain q dst data_len)"
    using assms by (simp add: queue_get_data_with_timeout_def)
  have "head q = tail q" if "queue_inv q" "queue_is_empty q"
    using that empty_iff [of q] by (simp add: queue_is_empty_def split: if_splits)
  then show ?thesis
    using d drain_empty by auto
qed

theorem timeout_zero_never_waits_witness:
  "(1::u32) \<noteq> 0 \<and>
   head (zeroed\<lparr>data := Some [0, 0, 0], total_size := 3\<rparr>) =
     tail (zeroed\<lparr>data := Some [0, 0, 0], total_size := 3\<rparr>) \<and>
   queue_get_data_with_timeout [] (Some (zeroed\<lparr>data := Some [0, 0, 0], total_size := 3\<rparr>))
       (Some [9]) 1 0 =
     Some (Inr (0, Some [9], Some (zeroed\<lparr>data := Some [0, 0, 0], total_size := 3\<rparr>)))"
proof -
  have l: "(1::u32) \<noteq> 0"
    by simp
  have e: "head (zeroed\<lparr>data := Some [0, 0, 0], total_size := 3\<rparr>) =
           tail (zeroed\<lparr>data := Some [0, 0, 0], total_size := 3\<rparr>)"
    by (simp add: zeroed_def)
  show ?thesis
    using l e timeout_zero_never_waits [OF l, of "[]" _ "[9]"] by blast
qed

text \<open>
  C9. The claim: a valid call of \<^verbatim>\<open>queue_put_data\<close> on a queue in use, of capacity
  \<open>C\<close> and holding \<open>k\<close> bytes, writes and returns exactly
  \<open>min data_len (C - k)\<close> bytes and leaves the count at \<open>k + min data_len (C - k)\<close>,
  and the drain step moves exactly \<open>min max_len k\<close> bytes. The bytes moved and the
  count are so for every call (\<open>put_and_drain_counts\<close>). The value returned is not:
  \<^verbatim>\<open>return put_num\<close> hands the \<^verbatim>\<open>uint32_t\<close> count to a function result of
  type \<^verbatim>\<open>int\<close> unchecked, although the comment of the function promises the number
  of bytes stored. On the empty queue of capacity \<open>2^32 - 2\<close> a call with
  \<open>2^32 - 1\<close> bytes stores \<open>2^32 - 2\<close> of them and returns \<open>-2\<close>.
\<close>

theorem put_count_returned_negative:
  "queue_init (Some (\<lambda>i. 0)) (Some zeroed) 4294967294 =
     (True, Some \<lparr>data = Some (replicate 4294967295 0), head = 0, tail = 0,
                  total_size = 4294967295, current_size = 0\<rparr>) \<and>
   queue_inv \<lparr>data = Some (replicate 4294967295 0), head = 0, tail = 0,
              total_size = 4294967295, current_size = 0\<rparr> \<and>
   capacity \<lparr>data = Some (replicate 4294967295 0), head = 0, tail = 0,
             total_size = 4294967295, current_size = 0\<rparr> = 4294967294 \<and>
   min (unat (4294967295 :: u32)) (4294967294 - 0) = 4294967294 \<and>
   returned (queue_put_data
      (Some \<lparr>data = Some (replicate 4294967295 0), head = 0, tail = 0,
             total_size = 4294967295, current_size = 0\<rparr>)
      (Some (replicate 4294967295 0)) 4294967295) = Some (- 2)"
proof -
  let ?q = "\<lparr>data = Some (replicate 4294967295 (0::u8)), head = 0, tail = 0,
             total_size = 4294967295, current_size = 0\<rparr>"
  have i: "queue_inv ?q" and s: "storage_ok ?q" and c: "capacity ?q = 4294967294"
    by (simp_all add: queue_inv_def storage_ok_def capacity_def)
  have init: "queue_init (Some (\<lambda>i. 0)) (Some zeroed) 4294967294 = (True, Some ?q)"
    by (simp add: init_value map_replicate_const)
  have l: "(4294967295 :: u32) \<noteq> 0"
    "unat (4294967295 :: u32) \<le> length (replicate 4294967295 (0::u8))"
    by simp_all
  obtain q' where "queue_put_data (Some ?q) (Some (replicate 4294967295 0)) 4294967295 =
      Inr (word_of_nat (min (unat (4294967295 :: u32)) (capacity ?q - unat (current_size ?q))),
           Some q')"
    using put_data_spec [OF i s l] by blast
  then have "returned (queue_put_data (Some ?q) (Some (replicate 4294967295 0)) 4294967295) =
      Some (- 2)"
    by (simp add: returned_def c)
  then show ?thesis
    using init i c by simp
qed

text \<open>
  C4. The claim: \<^verbatim>\<open>queue_put_data\<close> returns \<open>-1\<close> exactly when an argument is
  invalid, and every valid call returns the number of bytes stored, a value between 0
  and \<open>data_len\<close>. The code returns \<open>-1\<close> for the invalid arguments and stores a
  prefix of at most \<open>data_len\<close> bytes (\<open>put_fails_only_on_bad_arguments\<close>), but
  the number stored goes from \<^verbatim>\<open>uint32_t\<close> to \<^verbatim>\<open>int\<close> unchecked in
  \<^verbatim>\<open>return put_num\<close>, against the comment of the function (success: the number
  stored; failure: \<open>-1\<close>). On the empty queue of capacity \<open>3 * 2^30\<close> a call with as
  many bytes stores them all and returns \<open>- 2^30\<close>, a value that is neither the
  number stored nor between 0 and \<open>data_len\<close>.
\<close>

theorem put_returns_negative_count:
  "queue_init (Some (\<lambda>i. 0)) (Some zeroed) 3221225472 =
     (True, Some \<lparr>data = Some (replicate 3221225473 0), head = 0, tail = 0,
                  total_size = 3221225473, current_size = 0\<rparr>) \<and>
   queue_inv \<lparr>data = Some (replicate 3221225473 0), head = 0, tail = 0,
              total_size = 3221225473, current_size = 0\<rparr> \<and>
   returned (queue_put_data
      (Some \<lparr>data = Some (replicate 3221225473 0), head = 0, tail = 0,
             total_size = 3221225473, current_size = 0\<rparr>)
      (Some (replicate 3221225472 0)) 3221225472) = Some (- 1073741824)"
proof -
  let ?q = "\<lparr>data = Some (replicate 3221225473 (0::u8)), head = 0, tail = 0,
             total_size = 3221225473, current_size = 0\<rparr>"
  have i: "queue_inv ?q" and s: "storage_ok ?q" and c: "capacity ?q = 3221225472"
    by (simp_all add: queue_inv_def storage_ok_def capacity_def)
  have init: "queue_init (Some (\<lambda>i. 0)) (Some zeroed) 3221225472 = (True, Some ?q)"
    by (simp add: init_value map_replicate_const)
  have l: "(3221225472 :: u32) \<noteq> 0"
    "unat (3221225472 :: u32) \<le> length (replicate 3221225472 (0::u8))"
    by simp_all
  obtain q' where "queue_put_data (Some ?q) (Some (replicate 3221225472 0)) 3221225472 =
      Inr (word_of_nat (min (unat (3221225472 :: u32)) (capacity ?q - unat (current_size ?q))),
           Some q')"
    using put_data_spec [OF i s l] by blast
  then have "returned (queue_put_data (Some ?q) (Some (replicate 3221225472 0)) 3221225472) =
      Some (- 1073741824)"
    by (simp add: returned_def c)
  then show ?thesis
    using init i by simp
qed

text \<open>
  C2. The claim: for every capacity \<open>N\<close> of at least 1, after \<^verbatim>\<open>queue_init\<close> a
  call of \<^verbatim>\<open>queue_put_data\<close> with \<open>N\<close> bytes returns \<open>N\<close>, and the calls after
  it return 0 until a byte is taken out. The bytes are stored and the later calls
  return 0 for every capacity up to \<open>2^32 - 2\<close> (\<open>full_queue_takes_nothing\<close>), but
  the first call does not always return \<open>N\<close>. At \<open>N = 2^31\<close> all the bytes are
  stored and \<^verbatim>\<open>return put_num\<close>, which hands the \<^verbatim>\<open>uint32_t\<close> count to an
  \<^verbatim>\<open>int\<close> unchecked, returns \<open>- 2^31\<close>. At \<open>N = 2^32 - 1\<close> the unchecked sum
  \<open>N + 1\<close> of \<^verbatim>\<open>queue_init\<close> wraps to a \<open>total_size\<close> of 0 and the call
  divides by it.
\<close>

theorem full_put_returns_negative:
  "queue_init (Some (\<lambda>i. 0)) (Some zeroed) 2147483648 =
     (True, Some \<lparr>data = Some (replicate 2147483649 0), head = 0, tail = 0,
                  total_size = 2147483649, current_size = 0\<rparr>) \<and>
   returned (queue_put_data
      (Some \<lparr>data = Some (replicate 2147483649 0), head = 0, tail = 0,
             total_size = 2147483649, current_size = 0\<rparr>)
      (Some (replicate 2147483648 0)) 2147483648) = Some (- 2147483648) \<and>
   queue_init (Some (\<lambda>i. 0)) (Some zeroed) 4294967295 =
     (True, Some \<lparr>data = Some [], head = 0, tail = 0, total_size = 0, current_size = 0\<rparr>) \<and>
   returned (queue_put_data
      (Some \<lparr>data = Some [], head = 0, tail = 0, total_size = 0, current_size = 0\<rparr>)
      (Some (replicate 4294967295 0)) 4294967295) = None"
proof -
  let ?q = "\<lparr>data = Some (replicate 2147483649 (0::u8)), head = 0, tail = 0,
             total_size = 2147483649, current_size = 0\<rparr>"
  let ?z = "\<lparr>data = Some ([] :: u8 list), head = 0, tail = 0, total_size = 0,
             current_size = 0\<rparr>"
  have i: "queue_inv ?q" and s: "storage_ok ?q" and c: "capacity ?q = 2147483648"
    by (simp_all add: queue_inv_def storage_ok_def capacity_def)
  have init: "queue_init (Some (\<lambda>i. 0)) (Some zeroed) 2147483648 = (True, Some ?q)"
    by (simp add: init_value map_replicate_const)
  have l: "(2147483648 :: u32) \<noteq> 0"
    "unat (2147483648 :: u32) \<le> length (replicate 2147483648 (0::u8))"
    by simp_all
  obtain q' where "queue_put_data (Some ?q) (Some (replicate 2147483648 0)) 2147483648 =
      Inr (word_of_nat (min (unat (2147483648 :: u32)) (capacity ?q - unat (current_size ?q))),
           Some q')"
    using put_data_spec [OF i s l] by blast
  then have neg: "returned (queue_put_data (Some ?q) (Some (replicate 2147483648 0)) 2147483648) =
      Some (- 2147483648)"
    by (simp add: returned_def c)
  have initz: "queue_init (Some (\<lambda>i. 0)) (Some zeroed) 4294967295 = (True, Some ?z)"
    by (simp add: queue_init_def malloc_def sizeof_uint8_t_def)
  have "put_loop ?z (replicate 4294967295 0) 4294967295 0 = Inl DivByZero"
    by (subst put_loop.simps) simp
  then have trap: "returned (queue_put_data (Some ?z) (Some (replicate 4294967295 0)) 4294967295) =
      None"
    by (simp add: returned_def queue_put_data_def)
  show ?thesis
    using init neg initz trap by simp
qed


text \<open>
  C3. Take a queue in use that is empty, its indices anywhere in the ring. After any run
  of calls of \<^verbatim>\<open>queue_put_data\<close> that each stored all their bytes, a run of calls
  of \<^verbatim>\<open>queue_get_data\<close> whose lengths add up to the number of bytes stored (one
  call for all of them, or several) returns, put end to end, exactly the bytes that
  were stored, in the order in which they were stored, and leaves the queue empty.
  The witness starts at slot 3 of 5, so the bytes wrap around the end of the storage.
\<close>

theorem fifo_order:
  assumes "queue_inv q" and "storage_ok q" and "current_size q = 0"
    and "put_all q ds = Some q1"
    and "0 \<notin> set ns" and "sum_list (map unat ns) = length (concat ds)"
  shows "\<exists>q2. get_all q1 ns = Some (concat ds, q2) \<and> current_size q2 = 0"
proof -
  have e: "contents q = []"
    using assms(3) by (simp add: contents_def split: option.splits)
  have p: "queue_inv q1" "storage_ok q1" "contents q1 = concat ds"
    using put_all_contents [OF assms(1,2,4)] e by simp_all
  have k: "unat (current_size q1) = length (concat ds)"
    using length_contents [OF p(2)] p(3) by simp
  obtain q2 where "get_all q1 ns = Some (take (sum_list (map unat ns)) (contents q1), q2)"
    "unat (current_size q2) = unat (current_size q1) - sum_list (map unat ns)"
    using get_all_contents [OF p(1,2) assms(5)] k assms(6) by auto
  then show ?thesis
    using p(3) k assms(6) by (intro exI [of _ q2]) (simp add: unat_eq_0)
qed

theorem fifo_order_witness:
  "queue_inv (ring5\<lparr>tail := 3, current_size := 0\<rparr>) \<and>
   storage_ok (ring5\<lparr>tail := 3, current_size := 0\<rparr>) \<and>
   current_size (ring5\<lparr>tail := 3, current_size := 0\<rparr>) = 0 \<and>
   put_all (ring5\<lparr>tail := 3, current_size := 0\<rparr>) [[10, 11], [12], [13]] =
     Some \<lparr>data = Some [12, 13, 3, 10, 11], head = 3, tail = 2, total_size = 5,
           current_size = 4\<rparr> \<and>
   (0::u32) \<notin> set [1, 3] \<and>
   sum_list (map unat [1, 3 :: u32]) = length (concat [[10, 11], [12], [13 :: u8]]) \<and>
   (\<exists>q2. get_all \<lparr>data = Some [12, 13, 3, 10, 11], head = 3, tail = 2, total_size = 5,
                   current_size = 4\<rparr> [1, 3] = Some ([10, 11, 12, 13], q2) \<and>
         current_size q2 = 0)"
proof -
  have i: "queue_inv (ring5\<lparr>tail := 3, current_size := 0\<rparr>)"
    and s: "storage_ok (ring5\<lparr>tail := 3, current_size := 0\<rparr>)"
    and e: "current_size (ring5\<lparr>tail := 3, current_size := 0\<rparr>) = 0"
    by (simp_all add: ring5_def queue_inv_def storage_ok_def)
  have p: "put_all (ring5\<lparr>tail := 3, current_size := 0\<rparr>) [[10, 11], [12], [13]] =
     Some \<lparr>data = Some [12, 13, 3, 10, 11], head = 3, tail = 2, total_size = 5,
           current_size = 4\<rparr>"
    by (simp add: ring5_def queue_put_data_def)
  have z: "(0::u32) \<notin> set [1, 3]"
    and t: "sum_list (map unat [1, 3 :: u32]) = length (concat [[10, 11], [12], [13 :: u8]])"
    by simp_all
  show ?thesis
    using i s e p z t fifo_order [OF i s e p z t] by simp
qed

text \<open>
  C10, as amended. With the capacity \<open>2^32 - 1\<close> the length \<open>capacity + 1\<close> is
  stored as 0; when the allocation of no bytes succeeds, \<^verbatim>\<open>queue_init\<close> succeeds
  and leaves \<open>total_size = 0\<close> and \<open>head = tail = 0\<close>. On that queue every valid
  call of \<^verbatim>\<open>queue_put_data\<close> divides by zero in its test for a full queue. The
  drain step does not: it finds \<open>head = tail\<close>, returns 0 and changes nothing, before
  it comes to its remainder by \<open>total_size\<close>; that remainder is a division by zero
  only in a struct with \<open>total_size = 0\<close> and \<open>head \<noteq> tail\<close>. For every capacity
  from 1 to \<open>2^32 - 2\<close>, \<^verbatim>\<open>queue_init\<close> leaves a \<open>total_size\<close> of at least 2.
\<close>

theorem init_wraps_at_largest_capacity:
  "queue_init (Some fill) (Some q0) 4294967295 =
     (True, Some \<lparr>data = Some [], head = 0, tail = 0, total_size = 0, current_size = 0\<rparr>) \<and>
   (data_len \<noteq> 0 \<longrightarrow>
      queue_put_data
        (Some \<lparr>data = Some [], head = 0, tail = 0, total_size = 0, current_size = 0\<rparr>)
        (Some src) data_len = Inl DivByZero \<and>
      queue_get_data_with_timeout wakes
        (Some \<lparr>data = Some [], head = 0, tail = 0, total_size = 0, current_size = 0\<rparr>)
        (Some dst) data_len 0 =
        Some (Inr (0, Some dst,
          Some \<lparr>data = Some [], head = 0, tail = 0, total_size = 0, current_size = 0\<rparr>))) \<and>
   (data_len \<noteq> 0 \<and> total_size q = 0 \<and> head q \<noteq> tail q \<and> data q = Some blk \<and>
    unat (head q) < length blk \<and> dst \<noteq> [] \<longrightarrow>
      drain q dst data_len = Inl DivByZero) \<and>
   (queue_size \<noteq> 0 \<and> queue_size \<noteq> 4294967295 \<longrightarrow>
      (\<exists>q'. queue_init (Some fill) (Some q0) queue_size = (True, Some q') \<and>
            2 \<le> total_size q'))"
proof -
  let ?z = "\<lparr>data = Some ([] :: u8 list), head = 0, tail = 0, total_size = 0,
             current_size = 0\<rparr>"
  have a: "queue_init (Some fill) (Some q0) 4294967295 = (True, Some ?z)"
    by (simp add: queue_init_def malloc_def sizeof_uint8_t_def)
  have b: "queue_put_data (Some ?z) (Some src) data_len = Inl DivByZero" if "data_len \<noteq> 0"
  proof -
    have "0 < data_len"
      using that by (simp add: word_neq_0_conv)
    then have "put_loop ?z src data_len 0 = Inl DivByZero"
      by (subst put_loop.simps) simp
    then show ?thesis
      using that by (simp add: queue_put_data_def)
  qed
  have c: "queue_get_data_with_timeout wakes (Some ?z) (Some dst) data_len 0 =
      Some (Inr (0, Some dst, Some ?z))" if "data_len \<noteq> 0"
    using that by (simp add: queue_get_data_with_timeout_def drain_empty)
  have d: "drain q dst data_len = Inl DivByZero"
    if "data_len \<noteq> 0" "total_size q = 0" "head q \<noteq> tail q" "data q = Some blk"
      "unat (head q) < length blk" "dst \<noteq> []"
  proof -
    have "0 < data_len"
      using that(1) by (simp add: word_neq_0_conv)
    then have "get_loop q dst data_len 0 = Inl DivByZero"
      using that by (subst get_loop.simps) simp
    then show ?thesis
      by (simp add: drain_def)
  qed
  have e: "\<exists>q'. queue_init (Some fill) (Some q0) queue_size = (True, Some q') \<and>
            2 \<le> total_size q'"
    if "queue_size \<noteq> 0" "queue_size \<noteq> 4294967295"
  proof -
    have w: "(4294967295 :: u32) = - 1"
      by simp
    have "queue_size \<noteq> - 1"
      using that(2) unfolding w .
    then show ?thesis
      using init_value [OF that(1), of fill q0] init_total_ge_2 [OF that(1)] by simp
  qed
  show ?thesis
    using a b c d e by blast
qed

theorem init_wraps_at_largest_capacity_witness:
  "(1::u32) \<noteq> 0 \<and> (4::u32) \<noteq> 0 \<and> (4::u32) \<noteq> 4294967295 \<and>
   total_size (zeroed\<lparr>data := Some [6], tail := 1\<rparr>) = 0 \<and>
   head (zeroed\<lparr>data := Some [6], tail := 1\<rparr>) \<noteq> tail (zeroed\<lparr>data := Some [6], tail := 1\<rparr>) \<and>
   queue_init (Some (\<lambda>i. 0)) (Some zeroed) 4294967295 =
     (True, Some \<lparr>data = Some [], head = 0, tail = 0, total_size = 0, current_size = 0\<rparr>) \<and>
   queue_put_data
     (Some \<lparr>data = Some [], head = 0, tail = 0, total_size = 0, current_size = 0\<rparr>)
     (Some [7]) 1 = Inl DivByZero \<and>
   queue_get_data_with_timeout []
     (Some \<lparr>data = Some [], head = 0, tail = 0, total_size = 0, current_size = 0\<rparr>)
     (Some [9]) 1 0 =
     Some (Inr (0, Some [9],
       Some \<lparr>data = Some [], head = 0, tail = 0, total_size = 0, current_size = 0\<rparr>)) \<and>
   drain (zeroed\<lparr>data := Some [6], tail := 1\<rparr>) [9] 1 = Inl DivByZero \<and>
   (\<exists>q'. queue_init (Some (\<lambda>i. 0)) (Some zeroed) 4 = (True, Some q') \<and> 2 \<le> total_size q')"
proof -
  have h: "(1::u32) \<noteq> 0" "(4::u32) \<noteq> 0" "(4::u32) \<noteq> 4294967295"
    "total_size (zeroed\<lparr>data := Some [6], tail := 1\<rparr>) = 0"
    "head (zeroed\<lparr>data := Some [6], tail := 1\<rparr>) \<noteq> tail (zeroed\<lparr>data := Some [6], tail := 1\<rparr>)"
    "data (zeroed\<lparr>data := Some [6], tail := 1\<rparr>) = Some [6]"
    "unat (head (zeroed\<lparr>data := Some [6], tail := 1\<rparr>)) < length [6 :: u8]"
    "[9 :: u8] \<noteq> []"
    by (simp_all add: zeroed_def)
  show ?thesis
    using h init_wraps_at_largest_capacity
      [of "\<lambda>i. 0" zeroed 1 "[7]" "[]" "[9]" "zeroed\<lparr>data := Some [6], tail := 1\<rparr>" "[6]" 4]
    by blast
qed

text \<open>
  C10 as first stated has the drain step divide by zero after such a
  \<^verbatim>\<open>queue_init\<close>; on the struct that \<^verbatim>\<open>queue_init\<close> leaves, the drain step
  returns 0.
\<close>

theorem drain_after_wrapped_init_counterexample:
  "queue_init (Some (\<lambda>i. 0)) (Some zeroed) 4294967295 =
     (True, Some \<lparr>data = Some [], head = 0, tail = 0, total_size = 0, current_size = 0\<rparr>) \<and>
   drain \<lparr>data = Some [], head = 0, tail = 0, total_size = 0, current_size = 0\<rparr> [9] 1 =
     Inr (0, Some [9],
       Some \<lparr>data = Some [], head = 0, tail = 0, total_size = 0, current_size = 0\<rparr>)"
  by (simp add: queue_init_def malloc_def sizeof_uint8_t_def zeroed_def drain_def)

text \<open>
  C7. The claim: the cached count is the distance from \<open>head\<close> to \<open>tail\<close> around
  the ring, with both indices below \<open>total_size\<close>, after \<^verbatim>\<open>queue_init\<close> and
  \<^verbatim>\<open>queue_clear\<close> and after every put and get. \<^verbatim>\<open>queue_clear\<close>,
  \<^verbatim>\<open>queue_put_data\<close> and the drain step keep it (\<open>queue_inv_preserved\<close>), and
  \<^verbatim>\<open>queue_init\<close> sets it up for every capacity from 1 to \<open>2^32 - 2\<close>
  (\<open>init_inv\<close>). With the capacity \<open>2^32 - 1\<close> the unchecked sum
  \<open>capacity + 1\<close> wraps to 0 and \<^verbatim>\<open>queue_init\<close> succeeds with
  \<open>total_size = 0\<close>, where no index is below \<open>total_size\<close>.
\<close>

theorem init_breaks_invariant_at_largest_capacity:
  "queue_init (Some (\<lambda>i. 0)) (Some zeroed) 4294967295 =
     (True, Some \<lparr>data = Some [], head = 0, tail = 0, total_size = 0, current_size = 0\<rparr>) \<and>
   \<not> queue_inv \<lparr>data = Some [], head = 0, tail = 0, total_size = 0, current_size = 0\<rparr>"
  by (simp add: queue_init_def malloc_def sizeof_uint8_t_def zeroed_def queue_inv_def)

text \<open>
  C1. The claim: when the timed wait ends well (the caller is woken by a signal and the
  count is no longer zero), \<^verbatim>\<open>queue_get_data_with_timeout\<close> goes on to the drain
  step and returns the number of bytes moved, and it returns \<open>-1\<close> without a drain
  only when the deadline passed or the wait reported an error other than
  \<^verbatim>\<open>EINTR\<close>. The code does otherwise: every return value of the wait that is not
  \<^verbatim>\<open>EINTR\<close> takes the branch that returns \<open>-1\<close>, and 0, the value of a wait
  that ended well, is one of them. Here a queue of capacity 4 is empty, a consumer asks
  for 1 byte with a timeout of 100 ms, a producer stores the byte 7 and signals, and the
  wait returns 0: the call returns \<open>-1\<close>, the buffer is untouched and the byte stays
  in the queue. (In general: \<open>timed_get_when_empty\<close>.)
\<close>

theorem timed_get_gives_up_on_signal:
  "queue_get_data_with_timeout [Wake 0 (other_put [7])]
       (snd (queue_init (Some (\<lambda>i. 0)) (Some zeroed) 4)) (Some [0]) 1 100 =
     Some (Inr (- 1, Some [0],
                Some \<lparr>data = Some [7, 0, 0, 0, 0], head = 0, tail = 1,
                      total_size = 5, current_size = 1\<rparr>))"
  by code_simp

end
